theory Spec2Isabelle
  imports Main "HOL-Library.Word" "HOL-Library.Multiset"
begin

section \<open>The data of pool.h\<close>

text \<open>
  \<open>size_t\<close> is taken to be 64 bits wide (LP64): \<open>GrowthFactor * m_blockSize\<close> is a
  product of two \<open>size_t\<close> values and wraps around at \<open>2 ^ 64\<close>.
\<close>

type_synonym size_t = "64 word"

text \<open>
  An \<open>Item*\<close> that is not null is the place of a slot: the index of its block in
  \<open>m_blocks\<close> and the index of the slot in that block. A pointer that may be
  \<open>nullptr\<close> is an \<open>addr option\<close>. A \<open>T*\<close> handed to the caller is the address of the
  slot holding the object.
\<close>

type_synonym addr = "nat \<times> nat"

text \<open>
  \<open>union Item { aligned_storage m_storage; Item* m_next; }\<close>: a slot is read either as
  the link of the free list or as the storage of a live \<open>T\<close>. The constructor of the
  datatype records which member was written last; reading the other one is undefined
  behaviour in the source and an error of the model.
\<close>

datatype 'a Item = M_next "addr option" | M_storage 'a

datatype error = AssertionFailed | BadAlloc | ConstructorThrew | UndefinedBehaviour

text \<open>
  The members of \<open>Pool\<close>: \<open>m_blocks\<close> (a vector of owned arrays of \<open>Item\<close>),
  \<open>m_blockSize\<close> and \<open>m_nextFree\<close>. The template parameters \<open>GrowthFactor\<close> and
  \<open>MaxBlockSize\<close> are arguments \<open>G\<close> and \<open>M\<close> of the operations that use them.
\<close>

record 'a pool =
  m_blocks :: "'a Item list list"
  m_blockSize :: size_t
  m_nextFree :: "addr option"

text \<open>
  The upstream allocator behind \<open>std::make_unique<Item[]>(n)\<close>: it either grants an array
  of \<open>n\<close> items or throws \<open>std::bad_alloc\<close>. Which requests it grants is a parameter.
\<close>

type_synonym upstream = "size_t \<Rightarrow> bool"

definition unlimited :: upstream where
  "unlimited n = True"

definition exhausted :: upstream where
  "exhausted n = False"

text \<open>\<open>Item() : m_next(nullptr)\<close> runs for every element of a new array.\<close>

definition make_unique :: "upstream \<Rightarrow> size_t \<Rightarrow> error + 'a Item list" where
  "make_unique up n = (if up n then Inr (replicate (unat n) (M_next None)) else Inl BadAlloc)"

section \<open>Reading and writing slots\<close>

definition in_range :: "'a Item list list \<Rightarrow> addr \<Rightarrow> bool" where
  "in_range bs a = (fst a < length bs \<and> snd a < length (bs ! fst a))"

text \<open>
  \<open>item->m_next\<close> as a read: \<open>None\<close> where the source has undefined behaviour (the
  pointer is outside every block, or the slot holds a live object).
\<close>

definition read_next :: "'a Item list list \<Rightarrow> addr \<Rightarrow> addr option option" where
  "read_next bs a =
     (if in_range bs a
      then (case bs ! fst a ! snd a of M_next nx \<Rightarrow> Some nx | M_storage v \<Rightarrow> None)
      else None)"

text \<open>The slot holds a live object: \<open>p->~type()\<close> is defined only there.\<close>

definition live :: "'a Item list list \<Rightarrow> addr \<Rightarrow> bool" where
  "live bs a =
     (in_range bs a \<and> (case bs ! fst a ! snd a of M_next nx \<Rightarrow> False | M_storage v \<Rightarrow> True))"

definition write_item :: "'a Item list list \<Rightarrow> addr \<Rightarrow> 'a Item \<Rightarrow> 'a Item list list" where
  "write_item bs a x = bs[fst a := (bs ! fst a)[snd a := x]]"

section \<open>Pool\<close>

text \<open>
  The loop of the constructor and of \<open>allocate\<close>:
  \<open>for (size_t i = 1; i < size; ++i) block[i-1].m_next = &block[i];\<close>
  where \<open>b\<close> is the index of the block in \<open>m_blocks\<close>.
\<close>

function thread_block :: "nat \<Rightarrow> nat \<Rightarrow> nat \<Rightarrow> 'a Item list \<Rightarrow> 'a Item list" where
  "thread_block b i n blk =
     (if i < n then thread_block b (Suc i) n (blk[i - 1 := M_next (Some (b, i))]) else blk)"
  by pat_completeness auto
termination
  by (relation "measure (\<lambda>(b, i, n, blk). n - i)") auto

declare thread_block.simps [simp del]

text \<open>
  A new array of \<open>n\<close> items after the threading loop, as block \<open>b\<close> of the pool: what
  the constructor and \<open>allocate\<close> append to \<open>m_blocks\<close>.
\<close>

definition new_block :: "nat \<Rightarrow> nat \<Rightarrow> 'a Item list" where
  "new_block b n = thread_block b 1 n (replicate n (M_next None))"

text \<open>
  \<open>Pool(size_t size)\<close>, with \<open>sz\<close> for \<open>size\<close>. The two assertions abort the program; the allocation may throw.
  \<open>MaxBlockSize\<close> is the only template parameter the constructor reads.
\<close>

definition Pool :: "size_t \<Rightarrow> upstream \<Rightarrow> size_t \<Rightarrow> error + 'a pool" where
  "Pool M up sz =
     (if \<not> sz > 0 then Inl AssertionFailed
      else if \<not> sz \<le> M then Inl AssertionFailed
      else (case make_unique up sz of
              Inl e \<Rightarrow> Inl e
            | Inr firstBlock \<Rightarrow>
                Inr \<lparr> m_blocks = [thread_block 0 1 (unat sz) firstBlock],
                      m_blockSize = sz,
                      m_nextFree = Some (0, 0) \<rparr>))"

text \<open>
  The branch of \<open>allocate\<close> taken when \<open>m_nextFree == nullptr\<close>. The new block size is
  stored in \<open>m_blockSize\<close> before the allocation is attempted, so a \<open>bad_alloc\<close> leaves
  the pool with the new \<open>m_blockSize\<close> and nothing else changed.
\<close>

definition grow :: "size_t \<Rightarrow> size_t \<Rightarrow> upstream \<Rightarrow> 'a pool \<Rightarrow> (error + unit) \<times> 'a pool" where
  "grow G M up p =
     (let p1 = p\<lparr>m_blockSize := min (G * m_blockSize p) M\<rparr> in
      case make_unique up (m_blockSize p1) of
        Inl e \<Rightarrow> (Inl e, p1)
      | Inr newBlock \<Rightarrow>
          (Inr (),
           p1\<lparr>m_blocks :=
                 m_blocks p1 @
                 [thread_block (length (m_blocks p1)) 1 (unat (m_blockSize p1)) newBlock],
              m_nextFree := Some (length (m_blocks p1), 0)\<rparr>))"

text \<open>
  The last three lines of \<open>allocate\<close>:
  \<open>Item* freeItem = m_nextFree; m_nextFree = freeItem->m_next; return &freeItem->m_storage;\<close>
\<close>

definition take_head :: "'a pool \<Rightarrow> (error + addr) \<times> 'a pool" where
  "take_head p =
     (case m_nextFree p of
        None \<Rightarrow> (Inl UndefinedBehaviour, p)
      | Some freeItem \<Rightarrow>
          (case read_next (m_blocks p) freeItem of
             None \<Rightarrow> (Inl UndefinedBehaviour, p)
           | Some nx \<Rightarrow> (Inr freeItem, p\<lparr>m_nextFree := nx\<rparr>)))"

definition allocate :: "size_t \<Rightarrow> size_t \<Rightarrow> upstream \<Rightarrow> 'a pool \<Rightarrow> (error + addr) \<times> 'a pool" where
  "allocate G M up p =
     (if m_nextFree p = None
      then (case grow G M up p of
              (Inl e, p1) \<Rightarrow> (Inl e, p1)
            | (Inr u, p1) \<Rightarrow> take_head p1)
      else take_head p)"

text \<open>
  \<open>construct\<close> is \<open>new (allocate()) type(args...)\<close>. The outcome of running the
  constructor of \<open>T\<close> on the arguments is the parameter \<open>ctor\<close>: \<open>None\<close> when it throws,
  \<open>Some v\<close> when it builds the object \<open>v\<close>. Placement new has no deallocation to run
  when the constructor throws, and \<open>construct\<close> catches nothing.
\<close>

definition construct ::
  "size_t \<Rightarrow> size_t \<Rightarrow> upstream \<Rightarrow> 'a option \<Rightarrow> 'a pool \<Rightarrow> (error + addr) \<times> 'a pool" where
  "construct G M up ctor p =
     (case allocate G M up p of
        (Inl e, p1) \<Rightarrow> (Inl e, p1)
      | (Inr a, p1) \<Rightarrow>
          (case ctor of
             None \<Rightarrow> (Inl ConstructorThrew, p1)
           | Some v \<Rightarrow> (Inr a, p1\<lparr>m_blocks := write_item (m_blocks p1) a (M_storage v)\<rparr>)))"

text \<open>\<open>deallocate\<close>: \<open>item->m_next = m_nextFree; m_nextFree = item;\<close>\<close>

definition deallocate :: "'a pool \<Rightarrow> addr \<Rightarrow> 'a pool" where
  "deallocate p item =
     p\<lparr>m_blocks := write_item (m_blocks p) item (M_next (m_nextFree p)),
       m_nextFree := Some item\<rparr>"

text \<open>
  \<open>destroy\<close>: nothing on \<open>nullptr\<close>; otherwise the destructor runs and the slot goes back
  to the free list. Running the destructor on something that is not a live object of this
  pool is undefined behaviour, which the model reports and the source does not check.
\<close>

definition destroy :: "'a pool \<Rightarrow> addr option \<Rightarrow> (error + unit) \<times> 'a pool" where
  "destroy p ptr =
     (case ptr of
        None \<Rightarrow> (Inr (), p)
      | Some a \<Rightarrow>
          if live (m_blocks p) a then (Inr (), deallocate p a)
          else (Inl UndefinedBehaviour, p))"

text \<open>\<open>release\<close>: \<open>m_blocks.clear(); m_nextFree = nullptr;\<close>\<close>

definition release :: "'a pool \<Rightarrow> 'a pool" where
  "release p = p\<lparr>m_blocks := [], m_nextFree := None\<rparr>"

definition full :: "'a pool \<Rightarrow> bool" where
  "full p = (m_nextFree p = None)"

text \<open>
  The counting loop of \<open>print\<close>:
  \<open>while (itemPtr != nullptr) { freeCount++; itemPtr = itemPtr->m_next; }\<close>
  It runs forever on a cyclic list; the result is \<open>None\<close> then. The counter is a \<open>nat\<close>:
  it counts slots of the pool, which are fewer than \<open>2 ^ 64\<close>.
\<close>

partial_function (option) count_loop ::
  "'a Item list list \<Rightarrow> addr option \<Rightarrow> nat \<Rightarrow> (error + nat) option" where
  "count_loop bs itemPtr freeCount =
     (case itemPtr of
        None \<Rightarrow> Some (Inr freeCount)
      | Some a \<Rightarrow>
          (case read_next bs a of
             None \<Rightarrow> Some (Inl UndefinedBehaviour)
           | Some nx \<Rightarrow> count_loop bs nx (Suc freeCount)))"

declare count_loop.simps [code]

definition freeCount :: "'a pool \<Rightarrow> (error + nat) option" where
  "freeCount p = count_loop (m_blocks p) (m_nextFree p) 0"

text \<open>
  The free list as a list of slots: \<open>free_path bs h xs\<close> says that following
  \<open>m_next\<close> from \<open>h\<close> visits exactly \<open>xs\<close>, in order, and then reaches \<open>nullptr\<close>.
\<close>

fun free_path :: "'a Item list list \<Rightarrow> addr option \<Rightarrow> addr list \<Rightarrow> bool" where
  "free_path bs h [] = (h = None)"
| "free_path bs h (a # as) =
     (h = Some a \<and> (case read_next bs a of None \<Rightarrow> False | Some nx \<Rightarrow> free_path bs nx as))"

text \<open>The number of slots in all blocks of the pool.\<close>

definition capacity :: "'a pool \<Rightarrow> nat" where
  "capacity p = sum_list (map length (m_blocks p))"

section \<open>Sequences of calls\<close>

text \<open>A run of \<open>construct\<close> calls, one per constructor outcome, keeping every result.\<close>

fun construct_all ::
  "size_t \<Rightarrow> size_t \<Rightarrow> upstream \<Rightarrow> 'a option list \<Rightarrow> 'a pool \<Rightarrow> (error + addr) list \<times> 'a pool" where
  "construct_all G M up [] p = ([], p)"
| "construct_all G M up (c # cs) p =
     (case construct G M up c p of
        (r, p1) \<Rightarrow> (case construct_all G M up cs p1 of (rs, p2) \<Rightarrow> (r # rs, p2)))"

text \<open>The handles among the results of a run.\<close>

fun handles :: "(error + addr) list \<Rightarrow> addr list" where
  "handles [] = []"
| "handles (Inl e # rs) = handles rs"
| "handles (Inr a # rs) = a # handles rs"

text \<open>A run of \<open>destroy\<close> calls, stopping at the first undefined behaviour.\<close>

fun destroy_all :: "'a pool \<Rightarrow> addr option list \<Rightarrow> (error + unit) \<times> 'a pool" where
  "destroy_all p [] = (Inr (), p)"
| "destroy_all p (ptr # ptrs) =
     (case destroy p ptr of
        (Inl e, p1) \<Rightarrow> (Inl e, p1)
      | (Inr u, p1) \<Rightarrow> destroy_all p1 ptrs)"

text \<open>Any call of the public interface; each \<open>construct\<close> meets its own allocator.\<close>

datatype 'a call = Construct upstream "'a option" | Destroy "addr option" | Release

fun step :: "size_t \<Rightarrow> size_t \<Rightarrow> 'a pool \<Rightarrow> 'a call \<Rightarrow> 'a pool" where
  "step G M p (Construct up ctor) = snd (construct G M up ctor p)"
| "step G M p (Destroy ptr) = snd (destroy p ptr)"
| "step G M p Release = release p"

text \<open>The states a pool goes through under a sequence of calls, the first one included.\<close>

fun trace :: "size_t \<Rightarrow> size_t \<Rightarrow> 'a pool \<Rightarrow> 'a call list \<Rightarrow> 'a pool list" where
  "trace G M p [] = [p]"
| "trace G M p (c # cs) = p # trace G M (step G M p c) cs"

text \<open>
  The sizes of the blocks allocated by a sequence of calls, in the order of allocation: a
  call has allocated a block when \<open>m_blocks\<close> is one block longer after it.
\<close>

fun new_sizes :: "size_t \<Rightarrow> size_t \<Rightarrow> 'a pool \<Rightarrow> 'a call list \<Rightarrow> nat list" where
  "new_sizes G M p [] = []"
| "new_sizes G M p (c # cs) =
     (if length (m_blocks (step G M p c)) = Suc (length (m_blocks p))
      then [length (last (m_blocks (step G M p c)))] else []) @
     new_sizes G M (step G M p c) cs"

text \<open>The sizes \<open>k\<close> growth steps give, starting from the block size \<open>s\<close>.\<close>

fun grow_sizes :: "size_t \<Rightarrow> size_t \<Rightarrow> size_t \<Rightarrow> nat \<Rightarrow> nat list" where
  "grow_sizes G M s 0 = []"
| "grow_sizes G M s (Suc k) = unat (min (G * s) M) # grow_sizes G M (min (G * s) M) k"



section \<open>Multipool\<close>

text \<open>
  \<open>std::tuple<Pool<Ts>...> pools\<close> is read by \<open>std::get<Pool<T>>\<close>, which needs the
  types to be distinct: the tuple is a function from the type (a tag \<open>'t\<close>) to its pool.
  The member pools have the default template arguments, growth factor 2 and maximal block
  size 1024.
\<close>

type_synonym ('t, 'a) multipool = "'t \<Rightarrow> 'a pool"

definition Multipool :: "upstream \<Rightarrow> size_t \<Rightarrow> error + ('t, 'a) multipool" where
  "Multipool up n = (case Pool 1024 up n of Inl e \<Rightarrow> Inl e | Inr p \<Rightarrow> Inr (\<lambda>T. p))"

definition mp_construct ::
  "upstream \<Rightarrow> 't \<Rightarrow> 'a option \<Rightarrow> ('t, 'a) multipool \<Rightarrow> (error + addr) \<times> ('t, 'a) multipool" where
  "mp_construct up T ctor pools =
     (case construct 2 1024 up ctor (pools T) of (r, p1) \<Rightarrow> (r, pools(T := p1)))"

definition mp_destroy ::
  "'t \<Rightarrow> addr option \<Rightarrow> ('t, 'a) multipool \<Rightarrow> (error + unit) \<times> ('t, 'a) multipool" where
  "mp_destroy T ptr pools = (case destroy (pools T) ptr of (r, p1) \<Rightarrow> (r, pools(T := p1)))"

definition mp_release :: "'t \<Rightarrow> ('t, 'a) multipool \<Rightarrow> ('t, 'a) multipool" where
  "mp_release T pools = pools(T := release (pools T))"

definition release_all :: "('t, 'a) multipool \<Rightarrow> ('t, 'a) multipool" where
  "release_all pools = (\<lambda>T. release (pools T))"

section \<open>Example pools\<close>

text \<open>A pool of initial size 8 with the default template arguments, and its first states.\<close>

definition pool8 :: "nat pool" where
  "pool8 = projr (Pool 1024 unlimited 8)"

definition pool8_3 :: "nat pool" where
  "pool8_3 = snd (construct_all 2 1024 unlimited [Some 10, Some 11, Some 12] pool8)"

text \<open>A multipool over two types, tagged \<open>False\<close> and \<open>True\<close>, holding one object of the second.\<close>

definition mp_example :: "(bool, nat) multipool" where
  "mp_example = snd (mp_construct unlimited True (Some 7) (projr (Multipool unlimited 8)))"

text \<open>A pool of initial size 1 whose only slot is taken: its free list is empty.\<close>

definition pool1_full :: "nat pool" where
  "pool1_full = snd (construct 2 1024 unlimited (Some 10) (projr (Pool 1024 unlimited 1)))"

text \<open>The scenario of twenty objects in a pool of initial size 8.\<close>

definition pool8_20 :: "nat pool" where
  "pool8_20 = snd (construct_all 2 1024 unlimited (replicate 20 (Some 0)) pool8)"

definition handles20 :: "addr list" where
  "handles20 = handles (fst (construct_all 2 1024 unlimited (replicate 20 (Some 0)) pool8))"

text \<open>A pool of initial size 2, for a growth factor of \<open>2 ^ 63\<close>.\<close>

definition pool2 :: "nat pool" where
  "pool2 = projr (Pool 1024 unlimited 2)"

section \<open>Properties of the operations\<close>

subsection \<open>The threading loop\<close>

lemma length_thread_block [simp]: "length (thread_block b i n blk) = length blk"
  by (induction b i n blk rule: thread_block.induct) (subst thread_block.simps, simp)

lemma thread_block_nth:
  "1 \<le> i \<Longrightarrow> k < length blk \<Longrightarrow>
   thread_block b i n blk ! k =
     (if i \<le> Suc k \<and> Suc k < n then M_next (Some (b, Suc k)) else blk ! k)"
proof (induction b i n blk arbitrary: k rule: thread_block.induct)
  case (1 b i n blk)
  show ?case
  proof (cases "i < n")
    case True
    have "thread_block b i n blk ! k = thread_block b (Suc i) n (blk[i - 1 := M_next (Some (b, i))]) ! k"
      using True by (subst thread_block.simps) simp
    also have "\<dots> = (if Suc i \<le> Suc k \<and> Suc k < n then M_next (Some (b, Suc k))
                      else blk[i - 1 := M_next (Some (b, i))] ! k)"
      using "1.IH"[OF True, of k] "1.prems" by simp
    finally show ?thesis using "1.prems" True
      by (auto simp: nth_list_update)
  next
    case False
    then show ?thesis by (subst thread_block.simps) auto
  qed
qed

lemma length_new_block [simp]: "length (new_block b n) = n"
  by (simp add: new_block_def)

lemma new_block_nth:
  "k < n \<Longrightarrow> new_block b n ! k = M_next (if Suc k < n then Some (b, Suc k) else None)"
  by (simp add: new_block_def thread_block_nth)

subsection \<open>Free lists\<close>

lemma read_next_append:
  "in_range bs a \<Longrightarrow> read_next (bs @ cs) a = read_next bs a"
  by (auto simp: read_next_def in_range_def nth_append)

lemma read_next_Some_in_range: "read_next bs a = Some nx \<Longrightarrow> in_range bs a"
  by (auto simp: read_next_def split: if_splits)

lemma free_path_append:
  "free_path bs h xs \<Longrightarrow> free_path (bs @ cs) h xs"
proof (induction xs arbitrary: h)
  case Nil then show ?case by simp
next
  case (Cons a xs)
  from Cons.prems obtain nx where h: "h = Some a" and nx: "read_next bs a = Some nx" "free_path bs nx xs"
    by (auto split: option.splits)
  have "read_next (bs @ cs) a = Some nx"
    using nx(1) read_next_Some_in_range[OF nx(1)] by (simp add: read_next_append)
  with Cons.IH[OF nx(2)] h show ?case by simp
qed

lemma write_item_nth_other:
  "(i, j) \<noteq> a \<Longrightarrow> write_item bs a x ! i ! j = bs ! i ! j"
proof (cases "i = fst a")
  case False
  then show ?thesis by (simp add: write_item_def)
next
  case True
  assume "(i, j) \<noteq> a"
  with True have j: "snd a \<noteq> j" by (cases a) auto
  show ?thesis
  proof (cases "fst a < length bs")
    case True
    with \<open>i = fst a\<close> j show ?thesis by (simp add: write_item_def)
  next
    case False
    then show ?thesis by (simp add: write_item_def list_update_beyond)
  qed
qed

lemma length_write_item [simp]: "length (write_item bs a x) = length bs"
  by (simp add: write_item_def)

lemma length_write_item_nth [simp]: "length (write_item bs a x ! i) = length (bs ! i)"
proof (cases "i = fst a \<and> fst a < length bs")
  case True
  then show ?thesis by (simp add: write_item_def)
next
  case False
  then show ?thesis by (cases "fst a < length bs") (auto simp: write_item_def list_update_beyond)
qed

lemma map_length_write_item [simp]: "map length (write_item bs a x) = map length bs"
  by (rule nth_equalityI) simp_all

lemma in_range_write [simp]: "in_range (write_item bs a x) c = in_range bs c"
  by (simp add: in_range_def)

lemma read_next_write_other:
  "c \<noteq> a \<Longrightarrow> read_next (write_item bs a x) c = read_next bs c"
proof -
  assume ne: "c \<noteq> a"
  have "write_item bs a x ! fst c ! snd c = bs ! fst c ! snd c"
    using ne by (intro write_item_nth_other) simp
  then show ?thesis
    unfolding read_next_def in_range_write by simp
qed

lemma free_path_write:
  "a \<notin> set xs \<Longrightarrow> free_path (write_item bs a x) h xs = free_path bs h xs"
proof (induction xs arbitrary: h)
  case Nil
  then show ?case by simp
next
  case (Cons c xs)
  then have "c \<noteq> a" and IH: "\<And>h. free_path (write_item bs a x) h xs = free_path bs h xs"
    by auto
  then have "read_next (write_item bs a x) c = read_next bs c"
    by (simp add: read_next_write_other)
  then show ?case by (simp add: IH split: option.split)
qed

lemma free_path_fun: "free_path bs h xs \<Longrightarrow> free_path bs h ys \<Longrightarrow> xs = ys"
proof (induction xs arbitrary: h ys)
  case Nil then show ?case by (cases ys) auto
next
  case (Cons a xs)
  then show ?case by (cases ys) (auto split: option.splits)
qed

lemma free_path_suffix:
  "free_path bs h (ys @ a # zs) \<Longrightarrow> free_path bs (Some a) (a # zs)"
proof (induction ys arbitrary: h)
  case Nil
  then show ?case by simp
next
  case (Cons y ys)
  from Cons.prems obtain nx where "free_path bs nx (ys @ a # zs)"
    by (auto split: option.splits)
  then show ?case by (rule Cons.IH)
qed

lemma free_path_distinct: "free_path bs h xs \<Longrightarrow> distinct xs"
proof (induction xs arbitrary: h)
  case Nil then show ?case by simp
next
  case (Cons a xs)
  from Cons.prems obtain nx where nx: "read_next bs a = Some nx" "free_path bs nx xs"
    by (auto split: option.splits)
  have "a \<notin> set xs"
  proof
    assume "a \<in> set xs"
    then obtain ys zs where xs: "xs = ys @ a # zs" by (auto simp: in_set_conv_decomp)
    with nx have "free_path bs (Some a) (a # zs)" using free_path_suffix by blast
    with Cons.prems have "a # xs = a # zs" using free_path_fun
      by (metis free_path.simps(2))
    with xs show False by simp
  qed
  with Cons.IH[OF nx(2)] show ?case by simp
qed

lemma count_loop_path:
  "free_path bs h xs \<Longrightarrow> count_loop bs h n = Some (Inr (n + length xs))"
proof (induction xs arbitrary: h n)
  case Nil then show ?case by (subst count_loop.simps) simp
next
  case (Cons a xs)
  then show ?case by (subst count_loop.simps) (auto split: option.splits)
qed

lemma count_loop_Inr_aux:
  assumes "count_loop bs0 h0 n0 = Some r0"
  shows "\<forall>k. r0 = Inr k \<longrightarrow> (\<exists>xs. free_path bs0 h0 xs \<and> k = n0 + length xs)"
proof (rule count_loop.raw_induct
    [where P = "\<lambda>bs h n r. \<forall>k. r = Inr k \<longrightarrow> (\<exists>xs. free_path bs h xs \<and> k = n + length xs)",
     OF _ assms])
  fix f :: "'a Item list list \<Rightarrow> addr option \<Rightarrow> nat \<Rightarrow> (error + nat) option"
    and bs itemPtr freeCount r
  assume IH: "\<And>bs h n r. f bs h n = Some r \<Longrightarrow>
                \<forall>k. r = Inr k \<longrightarrow> (\<exists>xs. free_path bs h xs \<and> k = n + length xs)"
    and eq: "(case itemPtr of
                None \<Rightarrow> Some (Inr freeCount)
              | Some a \<Rightarrow>
                  (case read_next bs a of
                     None \<Rightarrow> Some (Inl UndefinedBehaviour)
                   | Some nx \<Rightarrow> f bs nx (Suc freeCount))) = Some r"
  show "\<forall>k. r = Inr k \<longrightarrow> (\<exists>xs. free_path bs itemPtr xs \<and> k = freeCount + length xs)"
  proof (intro allI impI)
    fix k assume r: "r = Inr k"
    show "\<exists>xs. free_path bs itemPtr xs \<and> k = freeCount + length xs"
    proof (cases itemPtr)
      case None
      with eq r have "free_path bs itemPtr []" "k = freeCount + length ([] :: addr list)" by auto
      then show ?thesis by blast
    next
      case (Some a)
      with eq obtain nx where nx: "read_next bs a = Some nx"
        and rec: "f bs nx (Suc freeCount) = Some r"
        using r by (auto split: option.splits)
      from IH[OF rec] r obtain xs where "free_path bs nx xs" "k = Suc freeCount + length xs"
        by blast
      with Some nx have "free_path bs itemPtr (a # xs)" "k = freeCount + length (a # xs)" by auto
      then show ?thesis by blast
    qed
  qed
qed

lemma count_loop_Inr:
  "count_loop bs h n = Some (Inr k) \<Longrightarrow> \<exists>xs. free_path bs h xs \<and> k = n + length xs"
  using count_loop_Inr_aux by blast

lemma freeCount_iff_path:
  "freeCount p = Some (Inr k) \<longleftrightarrow> (\<exists>xs. free_path (m_blocks p) (m_nextFree p) xs \<and> length xs = k)"
  unfolding freeCount_def
  using count_loop_Inr[of "m_blocks p" "m_nextFree p" 0 k]
        count_loop_path[of "m_blocks p" "m_nextFree p" _ 0]
  by auto

subsection \<open>New blocks\<close>

lemma read_next_new_block:
  "k < n \<Longrightarrow> read_next (bs @ [new_block (length bs) n]) (length bs, k) =
     Some (if Suc k < n then Some (length bs, Suc k) else None)"
  by (simp add: read_next_def in_range_def new_block_nth)

lemma free_path_new_block:
  "i \<le> n \<Longrightarrow> free_path (bs @ [new_block (length bs) n])
     (if i < n then Some (length bs, i) else None) (map (Pair (length bs)) [i..<n])"
proof (induction "n - i" arbitrary: i)
  case 0
  then show ?case by simp
next
  case (Suc d)
  then have lt: "i < n" and d: "d = n - Suc i" and le: "Suc i \<le> n" by auto
  have upt: "[i..<n] = i # [Suc i..<n]" using lt by (simp add: upt_conv_Cons)
  from Suc.hyps(1)[OF d le] lt show ?case
    by (simp add: upt read_next_new_block)
qed

lemma make_unique_thread:
  "up n \<Longrightarrow> (case make_unique up n of Inl e \<Rightarrow> f e | Inr blk \<Rightarrow> g (thread_block b 1 (unat n) blk))
     = g (new_block b (unat n))"
  by (simp add: make_unique_def new_block_def)

lemma grow_granted:
  "up (min (G * m_blockSize p) M) \<Longrightarrow>
   grow G M up p =
     (Inr (), p\<lparr>m_blockSize := min (G * m_blockSize p) M,
                 m_blocks := m_blocks p @ [new_block (length (m_blocks p)) (unat (min (G * m_blockSize p) M))],
                 m_nextFree := Some (length (m_blocks p), 0)\<rparr>)"
  by (simp add: grow_def Let_def make_unique_def new_block_def)

lemma grow_refused:
  "\<not> up (min (G * m_blockSize p) M) \<Longrightarrow>
   grow G M up p = (Inl BadAlloc, p\<lparr>m_blockSize := min (G * m_blockSize p) M\<rparr>)"
  by (simp add: grow_def Let_def make_unique_def)

lemma Pool_granted:
  "0 < sz \<Longrightarrow> sz \<le> M \<Longrightarrow> up sz \<Longrightarrow>
   Pool M up sz = Inr \<lparr>m_blocks = [new_block 0 (unat sz)], m_blockSize = sz, m_nextFree = Some (0, 0)\<rparr>"
  by (simp add: Pool_def make_unique_def new_block_def)

lemma capacity_append [simp]:
  "capacity (p\<lparr>m_blocks := m_blocks p @ [blk]\<rparr>) = capacity p + length blk"
  by (simp add: capacity_def)

subsection \<open>Live objects\<close>

lemma live_not_read: "live bs a \<Longrightarrow> read_next bs a = None"
  by (auto simp: live_def read_next_def split: Item.splits)

lemma live_in_range: "live bs a \<Longrightarrow> in_range bs a"
  by (simp add: live_def)

lemma live_append: "live bs a \<Longrightarrow> live (bs @ cs) a"
  by (auto simp: live_def in_range_def nth_append)

lemma write_item_nth_same:
  "in_range bs a \<Longrightarrow> write_item bs a x ! fst a ! snd a = x"
  by (simp add: write_item_def in_range_def)

lemma live_write_storage:
  "in_range bs a \<Longrightarrow> live (write_item bs a (M_storage v)) c \<longleftrightarrow> c = a \<or> live bs c"
proof (cases "c = a")
  case True
  assume "in_range bs a"
  with True show ?thesis by (simp add: live_def write_item_nth_same)
next
  case False
  then have "write_item bs a (M_storage v) ! fst c ! snd c = bs ! fst c ! snd c"
    by (intro write_item_nth_other) simp
  with False show ?thesis by (simp add: live_def)
qed

lemma live_write_next:
  "in_range bs a \<Longrightarrow> live (write_item bs a (M_next nx)) c \<longleftrightarrow> c \<noteq> a \<and> live bs c"
proof (cases "c = a")
  case True
  assume "in_range bs a"
  with True show ?thesis by (simp add: live_def write_item_nth_same)
next
  case False
  then have "write_item bs a (M_next nx) ! fst c ! snd c = bs ! fst c ! snd c"
    by (intro write_item_nth_other) simp
  with False show ?thesis by (simp add: live_def)
qed

lemma read_next_write_next:
  "in_range bs a \<Longrightarrow> read_next (write_item bs a (M_next nx)) a = Some nx"
  by (simp add: read_next_def write_item_nth_same)

subsection \<open>Allocation\<close>

lemma take_head_Inr:
  "take_head p = (Inr a, p1) \<Longrightarrow>
   m_nextFree p = Some a \<and> read_next (m_blocks p) a = Some (m_nextFree p1) \<and>
   p1 = p\<lparr>m_nextFree := m_nextFree p1\<rparr>"
  by (auto simp: take_head_def split: option.splits)

lemma take_head_blocks:
  "take_head p = (r, p1) \<Longrightarrow> m_blocks p1 = m_blocks p \<and> m_blockSize p1 = m_blockSize p"
  by (auto simp: take_head_def split: option.splits)

lemma grow_blocks:
  "grow G M up p = (r, p1) \<Longrightarrow>
   m_blockSize p1 = min (G * m_blockSize p) M \<and>
   (r = Inl BadAlloc \<and> \<not> up (min (G * m_blockSize p) M) \<and>
      p1 = p\<lparr>m_blockSize := min (G * m_blockSize p) M\<rparr> \<or>
    r = Inr () \<and> up (min (G * m_blockSize p) M) \<and>
      m_blocks p1 = m_blocks p @ [new_block (length (m_blocks p)) (unat (min (G * m_blockSize p) M))] \<and>
      m_nextFree p1 = Some (length (m_blocks p), 0))"
  by (cases "up (min (G * m_blockSize p) M)") (auto simp: grow_granted grow_refused)

text \<open>What \<open>allocate\<close> does to the block list, whatever its result.\<close>

lemma allocate_blocks:
  assumes "allocate G M up p = (r, p1)"
  shows "(m_nextFree p \<noteq> None \<and> m_blocks p1 = m_blocks p \<and> m_blockSize p1 = m_blockSize p) \<or>
         (m_nextFree p = None \<and> r = Inl BadAlloc \<and> p1 = p\<lparr>m_blockSize := min (G * m_blockSize p) M\<rparr>) \<or>
         (m_nextFree p = None \<and> r \<noteq> Inl BadAlloc \<and> m_blockSize p1 = min (G * m_blockSize p) M \<and>
            m_blocks p1 = m_blocks p @ [new_block (length (m_blocks p)) (unat (min (G * m_blockSize p) M))])"
proof (cases "m_nextFree p")
  case (Some a)
  with assms have "take_head p = (r, p1)" by (simp add: allocate_def)
  from take_head_blocks[OF this] Some show ?thesis by simp
next
  case None
  obtain r0 p0 where g: "grow G M up p = (r0, p0)" by (cases "grow G M up p")
  from grow_blocks[OF g] show ?thesis
  proof (elim conjE disjE)
    assume "r0 = Inl BadAlloc" "p0 = p\<lparr>m_blockSize := min (G * m_blockSize p) M\<rparr>"
    with assms None g show ?thesis by (simp add: allocate_def)
  next
    assume a: "r0 = Inr ()" "m_blockSize p0 = min (G * m_blockSize p) M"
      "m_blocks p0 = m_blocks p @ [new_block (length (m_blocks p)) (unat (min (G * m_blockSize p) M))]"
    with assms None g have t: "take_head p0 = (r, p1)" by (simp add: allocate_def)
    then have "r \<noteq> Inl BadAlloc" by (auto simp: take_head_def split: option.splits)
    with take_head_blocks[OF t] a None show ?thesis by simp
  qed
qed

lemma capacity_blocks: "m_blocks p1 = m_blocks p \<Longrightarrow> capacity p1 = capacity p"
  by (simp add: capacity_def)

lemma capacity_blocks_append:
  "m_blocks p1 = m_blocks p @ [blk] \<Longrightarrow> capacity p1 = capacity p + length blk"
  by (simp add: capacity_def)

text \<open>
  A successful \<open>allocate\<close> on a well-formed free list: the slot returned leaves the list,
  and the list gains the other slots of a block allocated on the way.
\<close>

lemma allocate_path:
  assumes path: "free_path (m_blocks p) (m_nextFree p) xs"
    and al: "allocate G M up p = (Inr a, p1)"
  shows "\<exists>ys. free_path (m_blocks p1) (m_nextFree p1) ys \<and> a \<notin> set ys \<and>
              read_next (m_blocks p1) a = Some (m_nextFree p1) \<and>
              Suc (length ys) = length xs + (capacity p1 - capacity p) \<and>
              capacity p \<le> capacity p1"
proof (cases "m_nextFree p")
  case (Some a')
  with al have t: "take_head p = (Inr a, p1)" by (simp add: allocate_def)
  from take_head_Inr[OF t] take_head_blocks[OF t]
  have h: "m_nextFree p = Some a" and rd: "read_next (m_blocks p) a = Some (m_nextFree p1)"
    and bl: "m_blocks p1 = m_blocks p" by auto
  from path h obtain ys where xs: "xs = a # ys" by (cases xs) auto
  with path rd have ys: "free_path (m_blocks p) (m_nextFree p1) ys" by simp
  from free_path_distinct[OF path] xs have "a \<notin> set ys" by simp
  with ys rd bl xs capacity_blocks[OF bl] show ?thesis by auto
next
  case None
  let ?n = "unat (min (G * m_blockSize p) M)"
  let ?b = "length (m_blocks p)"
  from path None have xs: "xs = []" by (cases xs) auto
  obtain r0 p0 where g: "grow G M up p = (r0, p0)" by (cases "grow G M up p")
  from grow_blocks[OF g] al None g
  have bl0: "m_blocks p0 = m_blocks p @ [new_block ?b ?n]"
    and h0: "m_nextFree p0 = Some (?b, 0)" and t: "take_head p0 = (Inr a, p1)"
    by (auto simp: allocate_def)
  from take_head_Inr[OF t] take_head_blocks[OF t] h0
  have a: "a = (?b, 0)" and rd: "read_next (m_blocks p0) a = Some (m_nextFree p1)"
    and bl: "m_blocks p1 = m_blocks p0" by auto
  have pos: "0 < ?n"
  proof (rule ccontr)
    assume "\<not> 0 < ?n"
    then have "read_next (m_blocks p0) a = None"
      by (simp add: bl0 a read_next_def in_range_def)
    with rd show False by simp
  qed
  from rd pos have nx: "m_nextFree p1 = (if Suc 0 < ?n then Some (?b, Suc 0) else None)"
    by (simp add: bl0 a read_next_new_block)
  have "free_path (m_blocks p1) (m_nextFree p1) (map (Pair ?b) [Suc 0..<?n])"
    using free_path_new_block[of "Suc 0" ?n "m_blocks p"] pos
    by (simp add: bl bl0 nx)
  moreover have "a \<notin> set (map (Pair ?b) [Suc 0..<?n])" by (auto simp: a)
  moreover have "capacity p1 = capacity p + ?n"
    using capacity_blocks_append[of p1 p "new_block ?b ?n"] by (simp add: bl bl0)
  ultimately show ?thesis using rd pos xs bl by auto
qed

text \<open>\<open>allocate\<close> keeps every live object, and hands out a slot that holds none.\<close>

lemma allocate_live:
  assumes "allocate G M up p = (r, p1)"
  shows "(\<forall>c. live (m_blocks p) c \<longrightarrow> live (m_blocks p1) c) \<and>
         (\<forall>a. r = Inr a \<longrightarrow> in_range (m_blocks p1) a \<and> \<not> live (m_blocks p1) a)"
proof -
  have mono: "\<forall>c. live (m_blocks p) c \<longrightarrow> live (m_blocks p1) c"
    using allocate_blocks[OF assms] by (auto simp: live_append)
  have "in_range (m_blocks p1) a \<and> \<not> live (m_blocks p1) a" if r: "r = Inr a" for a
  proof -
    have "\<exists>q. take_head q = (Inr a, p1)"
    proof (cases "m_nextFree p")
      case (Some a')
      with assms r show ?thesis by (auto simp: allocate_def)
    next
      case None
      obtain r0 p0 where g: "grow G M up p = (r0, p0)" by (cases "grow G M up p")
      with assms r None show ?thesis
        by (cases r0) (auto simp: allocate_def)
    qed
    then obtain q where t: "take_head q = (Inr a, p1)" ..
    from take_head_Inr[OF t] take_head_blocks[OF t]
    have "read_next (m_blocks p1) a = Some (m_nextFree p1)" by simp
    then show ?thesis
      using live_not_read[of "m_blocks p1" a] read_next_Some_in_range by fastforce
  qed
  with mono show ?thesis by blast
qed

subsection \<open>Construction\<close>

lemma construct_cases:
  assumes "construct G M up ctor p = (r, p1)"
  obtains (alloc_failed) e where "allocate G M up p = (Inl e, p1)" "r = Inl e"
  | (threw) a where "allocate G M up p = (Inr a, p1)" "ctor = None" "r = Inl ConstructorThrew"
  | (built) a p0 v where "allocate G M up p = (Inr a, p0)" "ctor = Some v" "r = Inr a"
      "p1 = p0\<lparr>m_blocks := write_item (m_blocks p0) a (M_storage v)\<rparr>"
proof -
  obtain r0 p0 where al: "allocate G M up p = (r0, p0)" by (cases "allocate G M up p")
  show thesis
  proof (cases r0)
    case (Inl e)
    with al assms have "r = Inl e" "p0 = p1" by (simp_all add: construct_def)
    with al Inl show ?thesis by (intro alloc_failed[of e]) simp_all
  next
    case (Inr a)
    show ?thesis
    proof (cases ctor)
      case None
      with al assms Inr have "r = Inl ConstructorThrew" "p0 = p1" by (simp_all add: construct_def)
      with al Inr None show ?thesis by (intro threw[of a]) simp_all
    next
      case (Some v)
      with al assms Inr have "r = Inr a"
        "p1 = p0\<lparr>m_blocks := write_item (m_blocks p0) a (M_storage v)\<rparr>"
        by (simp_all add: construct_def)
      with al Inr Some show ?thesis by (intro built[of a p0 v]) simp_all
    qed
  qed
qed

lemma construct_live:
  assumes "construct G M up ctor p = (r, p1)"
  shows "(\<forall>c. live (m_blocks p) c \<longrightarrow> live (m_blocks p1) c) \<and>
         (\<forall>a. r = Inr a \<longrightarrow> live (m_blocks p1) a \<and> \<not> live (m_blocks p) a)"
  using assms
proof (cases rule: construct_cases)
  case (alloc_failed e)
  with allocate_live[OF alloc_failed(1)] show ?thesis by simp
next
  case (threw a)
  with allocate_live[OF threw(1)] show ?thesis by simp
next
  case (built a p0 v)
  from allocate_live[OF built(1)]
  have mono: "\<forall>c. live (m_blocks p) c \<longrightarrow> live (m_blocks p0) c"
    and a: "in_range (m_blocks p0) a" "\<not> live (m_blocks p0) a" by auto
  from a(1) have "live (m_blocks p1) c \<longleftrightarrow> c = a \<or> live (m_blocks p0) c" for c
    by (simp add: built(4) live_write_storage)
  with mono a(2) built(3) show ?thesis by blast
qed

lemma capacity_write [simp]:
  "capacity (p\<lparr>m_blocks := write_item (m_blocks p) a x\<rparr>) = capacity p"
  by (simp add: capacity_def)

text \<open>
  A call of \<open>construct\<close> whose allocation succeeds takes one slot off the free list, whether
  the constructor of the object then throws or not.
\<close>

lemma construct_path:
  assumes path: "free_path (m_blocks p) (m_nextFree p) xs"
    and c: "construct G M up ctor p = (r, p1)"
    and r: "r \<noteq> Inl BadAlloc" "r \<noteq> Inl UndefinedBehaviour" "r \<noteq> Inl AssertionFailed"
  shows "\<exists>ys. free_path (m_blocks p1) (m_nextFree p1) ys \<and>
              Suc (length ys) = length xs + (capacity p1 - capacity p) \<and>
              capacity p \<le> capacity p1"
  using c
proof (cases rule: construct_cases)
  case (alloc_failed e)
  then have "e = BadAlloc \<or> e = UndefinedBehaviour"
    by (auto simp: allocate_def take_head_def grow_def Let_def make_unique_def
             split: if_splits option.splits)
  with alloc_failed r show ?thesis by auto
next
  case (threw a)
  from allocate_path[OF path threw(1)] show ?thesis by blast
next
  case (built a p0 v)
  from allocate_path[OF path built(1)] obtain ys where
    ys: "free_path (m_blocks p0) (m_nextFree p0) ys" "a \<notin> set ys"
      "Suc (length ys) = length xs + (capacity p0 - capacity p)" "capacity p \<le> capacity p0"
    by blast
  have "free_path (m_blocks p1) (m_nextFree p1) ys"
    using ys(1,2) by (simp add: built(4) free_path_write)
  moreover have "capacity p1 = capacity p0" by (simp add: built(4))
  ultimately show ?thesis using ys by auto
qed

subsection \<open>Destruction\<close>

lemma free_path_readable:
  "free_path bs h xs \<Longrightarrow> a \<in> set xs \<Longrightarrow> read_next bs a \<noteq> None"
  by (induction xs arbitrary: h) (auto split: option.splits)

lemma destroy_live:
  "live (m_blocks p) a \<Longrightarrow> destroy p (Some a) = (Inr (), deallocate p a)"
  by (simp add: destroy_def)

lemma deallocate_path:
  assumes path: "free_path (m_blocks p) (m_nextFree p) xs" and a: "live (m_blocks p) a"
  shows "free_path (m_blocks (deallocate p a)) (m_nextFree (deallocate p a)) (a # xs)"
proof -
  have "a \<notin> set xs"
    using free_path_readable[OF path] live_not_read[OF a] by blast
  then have "free_path (write_item (m_blocks p) a (M_next (m_nextFree p))) (m_nextFree p) xs"
    using path by (simp add: free_path_write)
  then show ?thesis
    using live_in_range[OF a] by (simp add: deallocate_def read_next_write_next)
qed

lemma deallocate_live:
  "live (m_blocks p) a \<Longrightarrow>
   live (m_blocks (deallocate p a)) c \<longleftrightarrow> c \<noteq> a \<and> live (m_blocks p) c"
  by (simp add: deallocate_def live_write_next live_in_range)

lemma deallocate_frame [simp]:
  "capacity (deallocate p a) = capacity p"
  "m_blockSize (deallocate p a) = m_blockSize p"
  "map length (m_blocks (deallocate p a)) = map length (m_blocks p)"
  by (simp_all add: deallocate_def capacity_def)

lemma allocate_grows:
  assumes "m_nextFree p = None" "up (min (G * m_blockSize p) M)" "min (G * m_blockSize p) M \<noteq> 0"
  shows "allocate G M up p =
           (Inr (length (m_blocks p), 0),
            p\<lparr>m_blockSize := min (G * m_blockSize p) M,
              m_blocks := m_blocks p @
                [new_block (length (m_blocks p)) (unat (min (G * m_blockSize p) M))],
              m_nextFree := (if Suc 0 < unat (min (G * m_blockSize p) M)
                             then Some (length (m_blocks p), Suc 0) else None)\<rparr>)"
proof -
  from assms(3) have "0 < unat (min (G * m_blockSize p) M)"
    by (simp add: unat_gt_0)
  then show ?thesis
    using assms(1,2)
    by (simp add: allocate_def grow_granted take_head_def read_next_new_block)
qed

lemma construct_blocks:
  assumes "construct G M up ctor p = (r, p1)"
  shows "(m_nextFree p \<noteq> None \<and> map length (m_blocks p1) = map length (m_blocks p) \<and>
            m_blockSize p1 = m_blockSize p) \<or>
         (m_nextFree p = None \<and> r = Inl BadAlloc \<and>
            p1 = p\<lparr>m_blockSize := min (G * m_blockSize p) M\<rparr>) \<or>
         (m_nextFree p = None \<and> r \<noteq> Inl BadAlloc \<and> m_blockSize p1 = min (G * m_blockSize p) M \<and>
            map length (m_blocks p1) = map length (m_blocks p) @ [unat (min (G * m_blockSize p) M)])"
  using assms
proof (cases rule: construct_cases)
  case (alloc_failed e)
  from allocate_blocks[OF alloc_failed(1)] alloc_failed(2) show ?thesis by auto
next
  case (threw a)
  from allocate_blocks[OF threw(1)] threw(3) show ?thesis by auto
next
  case (built a p0 v)
  from allocate_blocks[OF built(1)] built(3,4) show ?thesis by auto
qed

lemma new_block_not_live: "\<not> live [new_block 0 n] a"
proof
  assume l: "live [new_block 0 n] a"
  then have "fst a = 0" "snd a < n" by (auto simp: live_def in_range_def)
  with l show False by (simp add: live_def new_block_nth)
qed

lemma handles_map_Inr [simp]: "handles (map Inr hs) = hs"
  by (induction hs) simp_all

lemma construct_all_live:
  "construct_all G M up ctors p = (rs, p1) \<Longrightarrow>
   distinct (handles rs) \<and>
   (\<forall>a \<in> set (handles rs). live (m_blocks p1) a \<and> \<not> live (m_blocks p) a) \<and>
   (\<forall>c. live (m_blocks p) c \<longrightarrow> live (m_blocks p1) c)"
proof (induction ctors arbitrary: p rs)
  case Nil
  then show ?case by simp
next
  case (Cons c ctors)
  obtain r p' where c: "construct G M up c p = (r, p')" by (cases "construct G M up c p")
  from Cons.prems c obtain rs' where cs: "construct_all G M up ctors p' = (rs', p1)"
    and eq: "rs = r # rs'"
    by (cases "construct_all G M up ctors p'") auto
  note L = construct_live[OF c]
  note IH = Cons.IH[OF cs]
  from L IH have mono: "\<forall>x. live (m_blocks p) x \<longrightarrow> live (m_blocks p1) x"
    by (simp add: eq)
  from L IH have old: "\<forall>a \<in> set (handles rs'). live (m_blocks p1) a \<and> \<not> live (m_blocks p) a"
    unfolding eq by blast
  show ?case
  proof (cases r)
    case (Inl e)
    with IH old mono show ?thesis by (simp add: eq)
  next
    case (Inr a)
    with L have a: "live (m_blocks p') a" "\<not> live (m_blocks p) a" by auto
    with IH have "a \<notin> set (handles rs')" "live (m_blocks p1) a"
      unfolding eq by blast+
    with IH old mono a Inr show ?thesis by (simp add: eq)
  qed
qed

lemma construct_all_path:
  "free_path (m_blocks p) (m_nextFree p) xs \<Longrightarrow>
   construct_all G M up ctors p = (map Inr hs, p1) \<Longrightarrow>
   length hs = length ctors \<and> capacity p \<le> capacity p1 \<and>
   (\<exists>ys. free_path (m_blocks p1) (m_nextFree p1) ys \<and>
         length ys + length hs = length xs + (capacity p1 - capacity p))"
proof (induction ctors arbitrary: p xs hs)
  case Nil
  then show ?case by auto
next
  case (Cons c ctors)
  obtain r p' where c: "construct G M up c p = (r, p')" by (cases "construct G M up c p")
  from Cons.prems(2) c obtain rs' where cs: "construct_all G M up ctors p' = (rs', p1)"
    and eq: "map Inr hs = r # rs'"
    by (cases "construct_all G M up ctors p'") auto
  from eq obtain a hs' where hs: "hs = a # hs'" "r = Inr a" "rs' = map Inr hs'"
    by (cases hs) auto
  from construct_path[OF Cons.prems(1) c] hs(2) obtain ys' where
    ys': "free_path (m_blocks p') (m_nextFree p') ys'"
         "Suc (length ys') = length xs + (capacity p' - capacity p)" "capacity p \<le> capacity p'"
    by auto
  from Cons.IH[OF ys'(1) cs[unfolded hs(3)]] obtain ys where
    ys: "length hs' = length ctors" "capacity p' \<le> capacity p1"
        "free_path (m_blocks p1) (m_nextFree p1) ys"
        "length ys + length hs' = length ys' + (capacity p1 - capacity p')"
    by blast
  from ys ys' have "length ys + length hs = length xs + (capacity p1 - capacity p)"
    by (simp add: hs(1))
  with ys ys' hs(1) show ?case by auto
qed

lemma destroy_all_path:
  "free_path (m_blocks p) (m_nextFree p) xs \<Longrightarrow> distinct ds \<Longrightarrow>
   \<forall>a \<in> set ds. live (m_blocks p) a \<Longrightarrow>
   \<exists>p2. destroy_all p (map Some ds) = (Inr (), p2) \<and>
        free_path (m_blocks p2) (m_nextFree p2) (rev ds @ xs) \<and>
        capacity p2 = capacity p \<and> m_blockSize p2 = m_blockSize p \<and>
        map length (m_blocks p2) = map length (m_blocks p)"
proof (induction ds arbitrary: p xs)
  case Nil
  then show ?case by simp
next
  case (Cons a ds)
  let ?q = "deallocate p a"
  from Cons.prems have a: "live (m_blocks p) a" by simp
  have d: "destroy p (Some a) = (Inr (), ?q)" using a by (rule destroy_live)
  have path: "free_path (m_blocks ?q) (m_nextFree ?q) (a # xs)"
    using Cons.prems(1) a by (rule deallocate_path)
  have "\<forall>c \<in> set ds. live (m_blocks ?q) c"
    using Cons.prems(2,3) by (auto simp: deallocate_live[OF a])
  from Cons.IH[OF path _ this] Cons.prems(2) obtain p2 where
    "destroy_all ?q (map Some ds) = (Inr (), p2)"
    "free_path (m_blocks p2) (m_nextFree p2) (rev ds @ a # xs)"
    "capacity p2 = capacity ?q" "m_blockSize p2 = m_blockSize ?q"
    "map length (m_blocks p2) = map length (m_blocks ?q)"
    by auto
  with d show ?case by simp
qed

subsection \<open>Block sizes\<close>

lemma unat_min: "unat (min a b) = min (unat a) (unat (b :: size_t))"
  by (simp add: min_def word_le_nat_alt)

lemma unat_mult_no_wrap:
  "unat G * unat s < 2 ^ 64 \<Longrightarrow> unat (G * s) = unat G * unat (s :: size_t)"
  using unat_mult_lem[of G s] by simp

lemma no_wrap_below:
  assumes "unat G * unat M < 2 ^ 64" "s \<le> (M :: size_t)"
  shows "unat G * unat s < 2 ^ 64"
proof -
  from assms(2) have "unat s \<le> unat M" by (simp add: word_le_nat_alt)
  then have "unat G * unat s \<le> unat G * unat M" by (rule mult_le_mono2)
  from this assms(1) show ?thesis by (rule le_less_trans)
qed

lemma next_size_mono:
  assumes "0 < G" "unat G * unat M < 2 ^ 64" "s \<le> (M :: size_t)"
  shows "s \<le> min (G * s) M"
proof -
  from assms(1) have "1 \<le> unat G" by (simp add: word_gt_0 unat_gt_0 Suc_le_eq)
  then have "unat s \<le> unat G * unat s" by simp
  also have "\<dots> = unat (G * s)"
    using no_wrap_below[OF assms(2,3)] by (simp add: unat_mult_no_wrap)
  finally have "s \<le> G * s" by (simp add: word_le_nat_alt)
  with assms(3) show ?thesis by simp
qed

lemma step_cases:
  fixes p :: "'a pool"
  shows "(length (m_blocks (step G M p c)) \<noteq> Suc (length (m_blocks p)) \<and>
          (m_blockSize (step G M p c) = m_blockSize p \<or>
           m_blockSize (step G M p c) = min (G * m_blockSize p) M)) \<or>
         (length (m_blocks (step G M p c)) = Suc (length (m_blocks p)) \<and>
          m_blockSize (step G M p c) = min (G * m_blockSize p) M \<and>
          length (last (m_blocks (step G M p c))) = unat (min (G * m_blockSize p) M))"
proof (cases c)
  case (Construct up ctor)
  obtain r p1 where c: "construct G M up ctor p = (r, p1)" by (cases "construct G M up ctor p")
  then have s: "step G M p (Construct up ctor) = p1" by simp
  from construct_blocks[OF c] show ?thesis unfolding Construct s
  proof (elim disjE conjE)
    assume "map length (m_blocks p1) = map length (m_blocks p)" "m_blockSize p1 = m_blockSize p"
    then show "(length (m_blocks p1) \<noteq> Suc (length (m_blocks p)) \<and>
          (m_blockSize p1 = m_blockSize p \<or> m_blockSize p1 = min (G * m_blockSize p) M)) \<or>
         (length (m_blocks p1) = Suc (length (m_blocks p)) \<and>
          m_blockSize p1 = min (G * m_blockSize p) M \<and>
          length (last (m_blocks p1)) = unat (min (G * m_blockSize p) M))"
      using map_eq_imp_length_eq[of length "m_blocks p1" length "m_blocks p"] by simp
  next
    assume "p1 = p\<lparr>m_blockSize := min (G * m_blockSize p) M\<rparr>"
    then show "(length (m_blocks p1) \<noteq> Suc (length (m_blocks p)) \<and>
          (m_blockSize p1 = m_blockSize p \<or> m_blockSize p1 = min (G * m_blockSize p) M)) \<or>
         (length (m_blocks p1) = Suc (length (m_blocks p)) \<and>
          m_blockSize p1 = min (G * m_blockSize p) M \<and>
          length (last (m_blocks p1)) = unat (min (G * m_blockSize p) M))"
      by simp
  next
    assume a: "m_blockSize p1 = min (G * m_blockSize p) M"
      "map length (m_blocks p1) = map length (m_blocks p) @ [unat (min (G * m_blockSize p) M)]"
    from arg_cong[OF a(2), of length] have l: "length (m_blocks p1) = Suc (length (m_blocks p))"
      by simp
    then have ne: "m_blocks p1 \<noteq> []" by auto
    have "length (last (m_blocks p1)) = last (map length (m_blocks p1))"
      using ne by (simp add: last_map)
    also have "\<dots> = unat (min (G * m_blockSize p) M)" by (simp add: a(2))
    finally show "(length (m_blocks p1) \<noteq> Suc (length (m_blocks p)) \<and>
          (m_blockSize p1 = m_blockSize p \<or> m_blockSize p1 = min (G * m_blockSize p) M)) \<or>
         (length (m_blocks p1) = Suc (length (m_blocks p)) \<and>
          m_blockSize p1 = min (G * m_blockSize p) M \<and>
          length (last (m_blocks p1)) = unat (min (G * m_blockSize p) M))"
      using a(1) l by simp
  qed
next
  case (Destroy ptr)
  have "length (m_blocks (snd (destroy p ptr))) = length (m_blocks p) \<and>
        m_blockSize (snd (destroy p ptr)) = m_blockSize p"
    by (auto simp: destroy_def deallocate_def split: option.splits)
  then show ?thesis by (simp add: Destroy)
next
  case Release
  then show ?thesis by (simp add: release_def)
qed

lemma step_bounded: "m_blockSize p \<le> M \<Longrightarrow> m_blockSize (step G M p c) \<le> M"
  using step_cases[of G M p c] by auto

lemma step_mono:
  assumes "0 < G" "unat G * unat M < 2 ^ 64" "m_blockSize p \<le> M"
  shows "m_blockSize p \<le> m_blockSize (step G M p c)"
  using step_cases[of G M p c] next_size_mono[OF assms] by auto

lemma new_sizes_bounded:
  "m_blockSize p \<le> M \<Longrightarrow> \<forall>n \<in> set (new_sizes G M p cs). n \<le> unat M"
proof (induction cs arbitrary: p)
  case Nil
  then show ?case by simp
next
  case (Cons c cs)
  from step_bounded[OF Cons.prems] have b: "m_blockSize (step G M p c) \<le> M" .
  have "unat (min (G * m_blockSize p) M) \<le> unat M" by (simp add: unat_min)
  with step_cases[of G M p c] Cons.IH[OF b] show ?case by auto
qed

lemma new_sizes_sorted:
  assumes "0 < G" "unat G * unat M < 2 ^ 64"
  shows "m_blockSize p \<le> M \<Longrightarrow>
         sorted (new_sizes G M p cs) \<and> (\<forall>n \<in> set (new_sizes G M p cs). unat (m_blockSize p) \<le> n)"
proof (induction cs arbitrary: p)
  case Nil
  then show ?case by simp
next
  case (Cons c cs)
  let ?p' = "step G M p c"
  from step_bounded[OF Cons.prems] have b: "m_blockSize ?p' \<le> M" .
  from step_mono[OF assms Cons.prems] have m: "unat (m_blockSize p) \<le> unat (m_blockSize ?p')"
    by (simp add: word_le_nat_alt)
  from Cons.IH[OF b] have IH: "sorted (new_sizes G M ?p' cs)"
    "\<forall>n \<in> set (new_sizes G M ?p' cs). unat (m_blockSize ?p') \<le> n" by simp_all
  from IH(2) m have rest: "\<forall>n \<in> set (new_sizes G M ?p' cs). unat (m_blockSize p) \<le> n"
    by auto
  show ?case
  proof (cases "length (m_blocks ?p') = Suc (length (m_blocks p))")
    case False
    with IH(1) rest show ?thesis by simp
  next
    case True
    with step_cases[of G M p c] have "length (last (m_blocks ?p')) = unat (m_blockSize ?p')"
      by auto
    with True IH m rest show ?thesis by (simp add: sorted_append)
  qed
qed

lemma trace_sorted:
  assumes "0 < G" "unat G * unat M < 2 ^ 64"
  shows "m_blockSize p \<le> M \<Longrightarrow>
         sorted (map m_blockSize (trace G M p cs)) \<and>
         (\<forall>q \<in> set (trace G M p cs). m_blockSize p \<le> m_blockSize q \<and> m_blockSize q \<le> M)"
proof (induction cs arbitrary: p)
  case Nil
  then show ?case by simp
next
  case (Cons c cs)
  let ?p' = "step G M p c"
  from step_bounded[OF Cons.prems] have b: "m_blockSize ?p' \<le> M" .
  from step_mono[OF assms Cons.prems] have m: "m_blockSize p \<le> m_blockSize ?p'" .
  from Cons.IH[OF b] m Cons.prems show ?case by auto
qed

lemma construct_released:
  assumes "up (min (G * m_blockSize p) M)" and "min (G * m_blockSize p) M \<noteq> 0"
  shows "map length (m_blocks (snd (construct G M up (Some v) (release p)))) =
           [unat (min (G * m_blockSize p) M)] \<and>
         m_blockSize (snd (construct G M up (Some v) (release p))) = min (G * m_blockSize p) M"
proof -
  let ?q = "release p"
  have q: "m_blockSize ?q = m_blockSize p" "m_blocks ?q = []" "m_nextFree ?q = None"
    by (simp_all add: release_def)
  obtain r p1 where c: "construct G M up (Some v) ?q = (r, p1)"
    by (cases "construct G M up (Some v) ?q")
  from allocate_grows[of ?q up G M] assms q
  have "fst (allocate G M up ?q) = Inr (0, 0)" by simp
  with c have "r = Inr (0, 0)" by (auto simp: construct_def split: prod.splits sum.splits)
  with construct_blocks[OF c] q c show ?thesis by auto
qed

lemma cycles_sizes:
  assumes "0 < G" "unat G * unat M < 2 ^ 64" "\<forall>n. up n"
  shows "0 < m_blockSize p \<Longrightarrow> m_blockSize p \<le> M \<Longrightarrow>
         new_sizes G M p (concat (replicate k [Release, Construct up (Some v)])) =
           grow_sizes G M (m_blockSize p) k"
proof (induction k arbitrary: p)
  case 0
  then show ?case by simp
next
  case (Suc k)
  let ?n = "min (G * m_blockSize p) M"
  let ?p' = "snd (construct G M up (Some v) (release p))"
  from Suc.prems(1) next_size_mono[OF assms(1,2) Suc.prems(2)]
  have pos: "0 < ?n" by (rule less_le_trans)
  then have ne: "?n \<noteq> 0" by (rule less_imp_neq[THEN not_sym])
  from assms(3) have up: "up ?n" by simp
  note cr = construct_released[of up G p M v, OF up ne]
  have le: "?n \<le> M" by simp
  have "new_sizes G M ?p' (concat (replicate k [Release, Construct up (Some v)])) =
          grow_sizes G M (m_blockSize ?p') k"
    using Suc.IH[of ?p'] pos le cr by simp
  moreover have "length (m_blocks ?p') = Suc 0" "length (last (m_blocks ?p')) = unat ?n"
  proof -
    from cr have ml: "map length (m_blocks ?p') = [unat ?n]" by simp
    from arg_cong[OF ml, of length] show l: "length (m_blocks ?p') = Suc 0" by simp
    then have "m_blocks ?p' \<noteq> []" by auto
    then have "length (last (m_blocks ?p')) = last (map length (m_blocks ?p'))"
      by (simp add: last_map)
    with ml show "length (last (m_blocks ?p')) = unat ?n" by simp
  qed
  ultimately show ?case using cr by (simp add: release_def)
qed

lemma trace_bounded:
  "m_blockSize p \<le> M \<Longrightarrow> \<forall>q \<in> set (trace G M p cs). m_blockSize q \<le> M"
proof (induction cs arbitrary: p)
  case Nil
  then show ?case by simp
next
  case (Cons c cs)
  from Cons.IH[OF step_bounded[OF Cons.prems]] Cons.prems show ?case by simp
qed

lemma Pool_Inr:
  "Pool M up sz = Inr p \<Longrightarrow> m_blockSize p = sz \<and> 0 < sz \<and> sz \<le> M"
  by (auto simp: Pool_def make_unique_def split: if_splits)

lemma growth_step:
  assumes G: "0 < G" "unat G * unat M < 2 ^ 64"
    and p: "m_nextFree p = None" "0 < m_blockSize p" "m_blockSize p \<le> M"
    and up: "up (min (G * m_blockSize p) M)"
  shows "unat (min (G * m_blockSize p) M) = min (unat G * unat (m_blockSize p)) (unat M)"
    and "grow G M up p =
           (Inr (), p\<lparr>m_blockSize := min (G * m_blockSize p) M,
                       m_blocks := m_blocks p @
                         [new_block (length (m_blocks p)) (unat (min (G * m_blockSize p) M))],
                       m_nextFree := Some (length (m_blocks p), 0)\<rparr>)"
    and "free_path
           (m_blocks p @ [new_block (length (m_blocks p)) (unat (min (G * m_blockSize p) M))])
           (Some (length (m_blocks p), 0))
           (map (Pair (length (m_blocks p))) [0..<unat (min (G * m_blockSize p) M)])"
    and "fst (construct G M up (Some v) p) = Inr (length (m_blocks p), 0)"
    and "map length (m_blocks (snd (construct G M up (Some v) p))) =
           map length (m_blocks p) @ [unat (min (G * m_blockSize p) M)]"
    and "m_blockSize (snd (construct G M up (Some v) p)) = min (G * m_blockSize p) M"
proof -
  let ?n = "min (G * m_blockSize p) M"
  show "unat ?n = min (unat G * unat (m_blockSize p)) (unat M)"
    using no_wrap_below[OF G(2) p(3)] by (simp add: unat_min unat_mult_no_wrap)
  show "grow G M up p =
           (Inr (), p\<lparr>m_blockSize := ?n,
                       m_blocks := m_blocks p @ [new_block (length (m_blocks p)) (unat ?n)],
                       m_nextFree := Some (length (m_blocks p), 0)\<rparr>)"
    using up by (rule grow_granted)
  from p(2) next_size_mono[OF G p(3)] have pos: "0 < ?n" by (rule less_le_trans)
  then have ne: "?n \<noteq> 0" by (rule less_imp_neq[THEN not_sym])
  then have upos: "0 < unat ?n" by (simp add: unat_gt_0)
  show "free_path (m_blocks p @ [new_block (length (m_blocks p)) (unat ?n)])
           (Some (length (m_blocks p), 0)) (map (Pair (length (m_blocks p))) [0..<unat ?n])"
    using free_path_new_block[of 0 "unat ?n" "m_blocks p"] upos by simp
  obtain r p1 where c: "construct G M up (Some v) p = (r, p1)"
    by (cases "construct G M up (Some v) p")
  from allocate_grows[of p up G M, OF p(1) up ne]
  have "fst (allocate G M up p) = Inr (length (m_blocks p), 0)" by simp
  with c have r: "r = Inr (length (m_blocks p), 0)"
    by (auto simp: construct_def split: prod.splits sum.splits)
  with c show "fst (construct G M up (Some v) p) = Inr (length (m_blocks p), 0)" by simp
  from construct_blocks[OF c] r p(1) c
  show "map length (m_blocks (snd (construct G M up (Some v) p))) =
           map length (m_blocks p) @ [unat ?n]"
    and "m_blockSize (snd (construct G M up (Some v) p)) = ?n"
    by auto
qed

lemma sizes_from_Pool:
  assumes "Pool M up0 S = Inr p0"
  shows "\<forall>n \<in> set (unat S # new_sizes G M p0 calls). n \<le> unat M"
    and "\<forall>q \<in> set (trace G M p0 calls). m_blockSize q \<le> M"
    and "0 < G \<Longrightarrow> unat G * unat M < 2 ^ 64 \<Longrightarrow> sorted (unat S # new_sizes G M p0 calls)"
    and "0 < G \<Longrightarrow> unat G * unat M < 2 ^ 64 \<Longrightarrow> sorted (map m_blockSize (trace G M p0 calls))"
proof -
  from Pool_Inr[OF assms] have S: "m_blockSize p0 = S" "S \<le> M" by simp_all
  then have le: "m_blockSize p0 \<le> M" by simp
  from S(2) have "unat S \<le> unat M" by (simp add: word_le_nat_alt)
  with new_sizes_bounded[OF le, of G calls]
  show "\<forall>n \<in> set (unat S # new_sizes G M p0 calls). n \<le> unat M" by simp
  show "\<forall>q \<in> set (trace G M p0 calls). m_blockSize q \<le> M"
    using le by (rule trace_bounded)
  show "sorted (unat S # new_sizes G M p0 calls)" if "0 < G" "unat G * unat M < 2 ^ 64"
    using new_sizes_sorted[OF that le, of calls] S(1) by simp
  show "sorted (map m_blockSize (trace G M p0 calls))" if "0 < G" "unat G * unat M < 2 ^ 64"
    using trace_sorted[OF that le, of calls] by simp
qed

lemma sizes_8_1024:
  "new_sizes 2 1024 pool8 (concat (replicate 9 [Release, Construct unlimited (Some 0)])) =
     [16, 32, 64, 128, 256, 512, 1024, 1024, 1024]"
proof -
  have bs: "m_blockSize pool8 = 8" unfolding pool8_def by code_simp
  have "new_sizes 2 1024 pool8 (concat (replicate 9 [Release, Construct unlimited (Some 0)])) =
          grow_sizes 2 1024 (m_blockSize pool8) 9"
    by (rule cycles_sizes) (simp_all add: bs unlimited_def)
  also have "\<dots> = [16, 32, 64, 128, 256, 512, 1024, 1024, 1024]"
    unfolding bs by code_simp
  finally show ?thesis .
qed

lemma sizes_8_exhaust:
  "map length (m_blocks (snd (construct_all 2 1024 unlimited (replicate 57 (Some 0)) pool8))) =
     [8, 16, 32, 64]"
  unfolding pool8_def by code_simp

subsection \<open>Calls that succeed\<close>

text \<open>
  With a growth factor of at least 1, no wrap-around, an allocator that grants every
  request and constructors that do not throw, \<open>construct\<close> returns a handle on every pool
  with a well-formed free list and \<open>0 < m_blockSize \<le> MaxBlockSize\<close>, and leaves such a
  pool; so does every run of such calls.
\<close>

lemma construct_succeeds:
  assumes G: "0 < G" "unat G * unat M < 2 ^ 64" and up: "\<forall>n. up n"
    and path: "free_path (m_blocks p) (m_nextFree p) xs"
    and sz: "0 < m_blockSize p" "m_blockSize p \<le> M"
  shows "\<exists>a p1 ys. construct G M up (Some v) p = (Inr a, p1) \<and>
           free_path (m_blocks p1) (m_nextFree p1) ys \<and>
           0 < m_blockSize p1 \<and> m_blockSize p1 \<le> M"
proof -
  obtain r p1 where c: "construct G M up (Some v) p = (r, p1)"
    by (cases "construct G M up (Some v) p")
  have "\<exists>a. fst (allocate G M up p) = Inr a"
  proof (cases xs)
    case Nil
    with path have h: "m_nextFree p = None" by simp
    from sz(1) next_size_mono[OF G sz(2)] have "0 < min (G * m_blockSize p) M"
      by (rule less_le_trans)
    then have "min (G * m_blockSize p) M \<noteq> 0" by (rule less_imp_neq[THEN not_sym])
    from allocate_grows[of p up G M, OF h _ this] up show ?thesis by simp
  next
    case (Cons a as)
    with path obtain nx where "m_nextFree p = Some a" "read_next (m_blocks p) a = Some nx"
      by (auto split: option.splits)
    then show ?thesis by (simp add: allocate_def take_head_def)
  qed
  with c obtain a where r: "r = Inr a"
    by (auto simp: construct_def split: prod.splits sum.splits)
  from construct_path[OF path c] r obtain ys where
    ys: "free_path (m_blocks p1) (m_nextFree p1) ys" by auto
  from c have s: "step G M p (Construct up (Some v)) = p1" by simp
  from step_bounded[OF sz(2), of G "Construct up (Some v)"] s
  have b: "m_blockSize p1 \<le> M" by simp
  from step_mono[OF G sz(2), of "Construct up (Some v)"] s sz(1)
  have "0 < m_blockSize p1" by (auto elim: less_le_trans)
  with c r ys b show ?thesis by blast
qed

lemma construct_all_succeeds:
  assumes G: "0 < G" "unat G * unat M < 2 ^ 64" and up: "\<forall>n. up n"
  shows "free_path (m_blocks p) (m_nextFree p) xs \<Longrightarrow> 0 < m_blockSize p \<Longrightarrow> m_blockSize p \<le> M \<Longrightarrow>
         \<exists>hs p1. construct_all G M up (map Some vs) p = (map Inr hs, p1)"
proof (induction vs arbitrary: p xs)
  case Nil
  then show ?case by simp
next
  case (Cons v vs)
  from construct_succeeds[OF G up Cons.prems, of v] obtain a p1 ys where
    c: "construct G M up (Some v) p = (Inr a, p1)"
      "free_path (m_blocks p1) (m_nextFree p1) ys" "0 < m_blockSize p1" "m_blockSize p1 \<le> M"
    by blast
  from Cons.IH[OF c(2,3,4)] obtain hs p2 where
    "construct_all G M up (map Some vs) p1 = (map Inr hs, p2)" by blast
  with c(1) have "construct_all G M up (map Some (v # vs)) p = (map Inr (a # hs), p2)"
    by simp
  then show ?case by blast
qed

subsection \<open>Calls without undefined behaviour\<close>





subsection \<open>The growth branch\<close>

lemma write_item_last:
  "write_item (bs @ [blk]) (length bs, i) x = bs @ [blk[i := x]]"
  by (simp add: write_item_def)

lemma construct_full_granted:
  assumes h: "m_nextFree p = None" and up: "up (min (G * m_blockSize p) M)"
    and c: "construct G M up ctor p = (r, p1)"
  shows "r \<noteq> Inl BadAlloc"
    and "butlast (m_blocks p1) = m_blocks p"
    and "length (last (m_blocks p1)) = unat (min (G * m_blockSize p) M)"
    and "length (m_blocks p1) = Suc (length (m_blocks p))"
    and "m_blockSize p1 = min (G * m_blockSize p) M"
proof -
  let ?n = "min (G * m_blockSize p) M" and ?b = "length (m_blocks p)"
  let ?g = "p\<lparr>m_blockSize := ?n, m_blocks := m_blocks p @ [new_block ?b (unat ?n)],
               m_nextFree := Some (?b, 0)\<rparr>"
  have al: "allocate G M up p = take_head ?g"
    using h up by (simp add: allocate_def grow_granted)
  obtain r0 p0 where t: "take_head ?g = (r0, p0)" by (cases "take_head ?g")
  from take_head_blocks[OF t] have p0: "m_blocks p0 = m_blocks p @ [new_block ?b (unat ?n)]"
    "m_blockSize p0 = ?n" by simp_all
  from t have r0: "r0 = Inr (?b, 0) \<or> r0 = Inl UndefinedBehaviour"
    by (auto simp: take_head_def split: option.splits)
  from c al t have
    "(r = r0 \<and> p1 = p0) \<or> (r = Inl ConstructorThrew \<and> p1 = p0) \<or>
     (\<exists>v. r = r0 \<and> r0 = Inr (?b, 0) \<and>
          p1 = p0\<lparr>m_blocks := write_item (m_blocks p0) (?b, 0) (M_storage v)\<rparr>)"
    using r0 by (cases ctor) (auto simp: construct_def)
  then have "r \<noteq> Inl BadAlloc \<and> m_blockSize p1 = ?n \<and>
             (\<exists>blk. m_blocks p1 = m_blocks p @ [blk] \<and> length blk = unat ?n)"
    using r0 p0 by (auto simp: write_item_last)
  then show "r \<noteq> Inl BadAlloc" "butlast (m_blocks p1) = m_blocks p"
    "length (last (m_blocks p1)) = unat ?n" "length (m_blocks p1) = Suc (length (m_blocks p))"
    "m_blockSize p1 = ?n"
    by auto
qed

lemma construct_not_full:
  assumes h: "m_nextFree p \<noteq> None" and c: "construct G M up ctor p = (r, p1)"
  shows "r \<noteq> Inl BadAlloc" and "map length (m_blocks p1) = map length (m_blocks p)"
    and "m_blockSize p1 = m_blockSize p"
proof -
  from c h show "r \<noteq> Inl BadAlloc"
    by (auto simp: construct_def allocate_def take_head_def split: option.splits)
  from construct_blocks[OF c] h
  show "map length (m_blocks p1) = map length (m_blocks p)" "m_blockSize p1 = m_blockSize p"
    by auto
qed

lemma construct_full_refused:
  "m_nextFree p = None \<Longrightarrow> \<not> up (min (G * m_blockSize p) M) \<Longrightarrow>
   construct G M up ctor p = (Inl BadAlloc, p\<lparr>m_blockSize := min (G * m_blockSize p) M\<rparr>)"
  by (simp add: construct_def allocate_def grow_refused)

lemma trace_in_range:
  assumes "0 < G" "unat G * unat M < 2 ^ 64" and "Pool M up0 S = Inr p0"
  shows "\<forall>q \<in> set (trace G M p0 calls). 0 < m_blockSize q \<and> m_blockSize q \<le> M"
proof -
  from Pool_Inr[OF assms(3)] have S: "m_blockSize p0 = S" "0 < S" "S \<le> M" by simp_all
  then have le: "m_blockSize p0 \<le> M" by simp
  from trace_sorted[OF assms(1,2) le, of calls]
  have "\<forall>q \<in> set (trace G M p0 calls). m_blockSize p0 \<le> m_blockSize q \<and> m_blockSize q \<le> M"
    by simp
  with S(1,2) show ?thesis by (auto elim: less_le_trans)
qed

section \<open>The claims\<close>




text \<open>
  C2, as amended. When the constructor of the object throws, \<open>construct\<close> passes the
  exception on and the pool stays as \<open>allocate\<close> left it: the reserved slot has left the
  free list and is not put back, and it is not marked as holding an object either. On a
  pool whose free list is well formed (the counting loop returns \<open>k\<close>), the free count
  after the failed call is \<open>k\<close>, plus the slots of a block allocated by the call, minus
  one; without growth it is \<open>k - 1\<close>.
\<close>

theorem constructor_failure_keeps_slot:
  assumes "freeCount p = Some (Inr k)" and "allocate G M up p = (Inr a, p1)"
  shows "construct G M up None p = (Inl ConstructorThrew, p1) \<and>
         freeCount p1 = Some (Inr (k + (capacity p1 - capacity p) - 1)) \<and>
         0 < k + (capacity p1 - capacity p) \<and>
         (\<not> full p \<longrightarrow> capacity p1 = capacity p \<and> freeCount p1 = Some (Inr (k - 1))) \<and>
         \<not> live (m_blocks p1) a \<and>
         (\<forall>ys. free_path (m_blocks p1) (m_nextFree p1) ys \<longrightarrow> a \<notin> set ys)"
proof -
  from assms(1) obtain xs where xs: "free_path (m_blocks p) (m_nextFree p) xs" "length xs = k"
    unfolding freeCount_iff_path by blast
  from allocate_path[OF xs(1) assms(2)] obtain ys where
    ys: "free_path (m_blocks p1) (m_nextFree p1) ys" "a \<notin> set ys"
        "Suc (length ys) = length xs + (capacity p1 - capacity p)" "capacity p \<le> capacity p1"
    by blast
  have c: "construct G M up None p = (Inl ConstructorThrew, p1)"
    using assms(2) by (simp add: construct_def)
  from ys(3) xs(2) have len: "length ys = k + (capacity p1 - capacity p) - 1" by simp
  with ys(1) have fc: "freeCount p1 = Some (Inr (k + (capacity p1 - capacity p) - 1))"
    unfolding freeCount_iff_path by blast
  have cap: "capacity p1 = capacity p" if "\<not> full p"
    using allocate_blocks[OF assms(2)] that by (auto simp: full_def capacity_def)
  have nl: "\<not> live (m_blocks p1) a"
    using allocate_live[OF assms(2)] by simp
  have "a \<notin> set zs" if "free_path (m_blocks p1) (m_nextFree p1) zs" for zs
    using free_path_fun[OF that ys(1)] ys(2) by simp
  with c fc cap nl ys(3) xs(2) show ?thesis by auto
qed

theorem constructor_failure_keeps_slot_witness:
  "freeCount pool8 = Some (Inr 8) \<and>
   allocate 2 1024 unlimited pool8 = (Inr (0, 0), pool8\<lparr>m_nextFree := Some (0, 1)\<rparr>) \<and>
   construct 2 1024 unlimited None pool8 = (Inl ConstructorThrew, pool8\<lparr>m_nextFree := Some (0, 1)\<rparr>) \<and>
   freeCount (pool8\<lparr>m_nextFree := Some (0, 1)\<rparr>) = Some (Inr 7)"
proof -
  have 1: "freeCount pool8 = Some (Inr 8)" unfolding pool8_def by code_simp
  have 2: "allocate 2 1024 unlimited pool8 = (Inr (0, 0), pool8\<lparr>m_nextFree := Some (0, 1)\<rparr>)"
    unfolding pool8_def by code_simp
  have 3: "\<not> full pool8" unfolding pool8_def by code_simp
  from constructor_failure_keeps_slot[OF 1 2] 1 2 3 show ?thesis by simp
qed

theorem constructor_failure_counterexample:
  "freeCount pool8 = Some (Inr 8) \<and>
   fst (construct 2 1024 unlimited None pool8) = Inl ConstructorThrew \<and>
   freeCount (snd (construct 2 1024 unlimited None pool8)) = Some (Inr 7)"
  unfolding pool8_def by code_simp

text \<open>
  C3, as amended. When the free list is empty and the upstream allocator refuses the new
  block, \<open>construct\<close> passes \<open>bad_alloc\<close> on; the block list and the head of the free list
  are as before the call, and \<open>m_blockSize\<close> already holds the size of the block that
  could not be allocated, \<open>min (G * m_blockSize) M\<close> computed in \<open>size_t\<close>. This is the only
  way for \<open>construct\<close> to end in \<open>bad_alloc\<close>.
\<close>

theorem failed_growth_state:
  "(full p \<and> \<not> up (min (G * m_blockSize p) M) \<longrightarrow>
      construct G M up ctor p = (Inl BadAlloc, p\<lparr>m_blockSize := min (G * m_blockSize p) M\<rparr>) \<and>
      m_blocks (snd (construct G M up ctor p)) = m_blocks p \<and>
      m_nextFree (snd (construct G M up ctor p)) = m_nextFree p \<and>
      m_blockSize (snd (construct G M up ctor p)) = min (G * m_blockSize p) M) \<and>
   (fst (construct G M up ctor p) = Inl BadAlloc \<longrightarrow>
      full p \<and> \<not> up (min (G * m_blockSize p) M))"
proof (rule conjI; rule impI)
  assume a: "full p \<and> \<not> up (min (G * m_blockSize p) M)"
  then have "construct G M up ctor p = (Inl BadAlloc, p\<lparr>m_blockSize := min (G * m_blockSize p) M\<rparr>)"
    by (simp add: construct_def allocate_def full_def grow_refused)
  then show "construct G M up ctor p = (Inl BadAlloc, p\<lparr>m_blockSize := min (G * m_blockSize p) M\<rparr>) \<and>
      m_blocks (snd (construct G M up ctor p)) = m_blocks p \<and>
      m_nextFree (snd (construct G M up ctor p)) = m_nextFree p \<and>
      m_blockSize (snd (construct G M up ctor p)) = min (G * m_blockSize p) M"
    by simp
next
  assume b: "fst (construct G M up ctor p) = Inl BadAlloc"
  obtain r p1 where c: "construct G M up ctor p = (r, p1)" by (cases "construct G M up ctor p")
  with b have r: "r = Inl BadAlloc" by simp
  from c show "full p \<and> \<not> up (min (G * m_blockSize p) M)"
  proof (cases rule: construct_cases)
    case (alloc_failed e)
    with r have al: "allocate G M up p = (Inl BadAlloc, p1)" by simp
    show ?thesis
    proof (cases "m_nextFree p")
      case None
      obtain r0 p0 where g: "grow G M up p = (r0, p0)" by (cases "grow G M up p")
      from grow_blocks[OF g] show ?thesis
      proof (elim conjE disjE)
        assume "\<not> up (min (G * m_blockSize p) M)"
        with None show ?thesis by (simp add: full_def)
      next
        assume "r0 = Inr ()"
        with al None g have "take_head p0 = (Inl BadAlloc, p1)" by (simp add: allocate_def)
        then show ?thesis by (auto simp: take_head_def split: option.splits)
      qed
    next
      case (Some a)
      with al have "take_head p = (Inl BadAlloc, p1)" by (simp add: allocate_def)
      then show ?thesis by (auto simp: take_head_def split: option.splits)
    qed
  next
    case (threw a)
    with r show ?thesis by simp
  next
    case (built a p0 v)
    with r show ?thesis by simp
  qed
qed

theorem failed_growth_state_witness:
  "full pool1_full \<and> \<not> exhausted (min (2 * m_blockSize pool1_full) 1024) \<and>
   m_blockSize pool1_full = 1 \<and>
   construct 2 1024 exhausted (Some 11) pool1_full = (Inl BadAlloc, pool1_full\<lparr>m_blockSize := 2\<rparr>)"
proof -
  have 1: "full pool1_full" unfolding pool1_full_def by code_simp
  have 2: "m_blockSize pool1_full = 1" unfolding pool1_full_def by code_simp
  have 3: "\<not> exhausted (min (2 * m_blockSize pool1_full) 1024)" by (simp add: exhausted_def)
  from failed_growth_state[of pool1_full exhausted 2 1024 "Some 11"] 1 2 3 show ?thesis by simp
qed

theorem failed_growth_counterexample:
  "full pool1_full \<and>
   m_blockSize pool1_full = 1 \<and>
   fst (construct 2 1024 exhausted (Some 11) pool1_full) = Inl BadAlloc \<and>
   m_blockSize (snd (construct 2 1024 exhausted (Some 11) pool1_full)) = 2"
  unfolding pool1_full_def by code_simp

text \<open>
  C4, as amended. Let the growth factor be at least 1 and \<open>GrowthFactor * MaxBlockSize\<close>
  be in the range of \<open>size_t\<close>. Then:

  \<^item> on a pool with \<open>m_blockSize\<close> between 1 and \<open>MaxBlockSize\<close>, a call of \<open>construct\<close>
    on an empty free list that the upstream allocator serves allocates exactly one block, of
    size \<open>min (G * m_blockSize) M\<close> (the product does not wrap), threads all its slots
    into a free list in the order of their indices, makes the first slot of the block the
    head of the list (the slot the call then returns), and stores the size of the block in
    \<open>m_blockSize\<close>;
  \<^item> a pool made by \<open>Pool(S)\<close> has \<open>m_blockSize\<close> between 1 and \<open>MaxBlockSize\<close> in every
    state it reaches under any sequence of calls, and the sizes of the blocks it allocates,
    the first block included, are non-decreasing and bounded by \<open>MaxBlockSize\<close>, as are
    the values of \<open>m_blockSize\<close>.

  With growth factor 2, initial size 8 and maximal size 1024 the pool that is filled up
  allocates blocks of sizes 8, 16, 32, 64, and the pool that has to grow at every call
  allocates blocks of sizes 16, 32, ..., 512, 1024, 1024, 1024 after the first one of 8.
\<close>

theorem growth_sizes:
  "(0 < G \<and> unat G * unat M < 2 ^ 64 \<longrightarrow>
      (m_nextFree p = None \<and> 0 < m_blockSize p \<and> m_blockSize p \<le> M \<and>
       up (min (G * m_blockSize p) M) \<longrightarrow>
         unat (min (G * m_blockSize p) M) = min (unat G * unat (m_blockSize p)) (unat M) \<and>
         grow G M up p =
           (Inr (), p\<lparr>m_blockSize := min (G * m_blockSize p) M,
                       m_blocks := m_blocks p @
                         [new_block (length (m_blocks p)) (unat (min (G * m_blockSize p) M))],
                       m_nextFree := Some (length (m_blocks p), 0)\<rparr>) \<and>
         free_path
           (m_blocks p @ [new_block (length (m_blocks p)) (unat (min (G * m_blockSize p) M))])
           (Some (length (m_blocks p), 0))
           (map (Pair (length (m_blocks p))) [0..<unat (min (G * m_blockSize p) M)]) \<and>
         fst (construct G M up (Some v) p) = Inr (length (m_blocks p), 0) \<and>
         map length (m_blocks (snd (construct G M up (Some v) p))) =
           map length (m_blocks p) @ [unat (min (G * m_blockSize p) M)] \<and>
         m_blockSize (snd (construct G M up (Some v) p)) = min (G * m_blockSize p) M) \<and>
      (Pool M up0 S = Inr p0 \<longrightarrow>
         (\<forall>q \<in> set (trace G M p0 calls). 0 < m_blockSize q \<and> m_blockSize q \<le> M) \<and>
         sorted (unat S # new_sizes G M p0 calls) \<and>
         (\<forall>n \<in> set (unat S # new_sizes G M p0 calls). n \<le> unat M) \<and>
         sorted (map m_blockSize (trace G M p0 calls)))) \<and>
   map length (m_blocks pool8) = [8] \<and>
   map length (m_blocks (snd (construct_all 2 1024 unlimited (replicate 57 (Some 0)) pool8))) =
     [8, 16, 32, 64] \<and>
   new_sizes 2 1024 pool8 (concat (replicate 9 [Release, Construct unlimited (Some 0)])) =
     [16, 32, 64, 128, 256, 512, 1024, 1024, 1024]"
proof -
  have 8: "map length (m_blocks pool8) = [8]" unfolding pool8_def by code_simp
  have a: "unat (min (G * m_blockSize p) M) = min (unat G * unat (m_blockSize p)) (unat M) \<and>
         grow G M up p =
           (Inr (), p\<lparr>m_blockSize := min (G * m_blockSize p) M,
                       m_blocks := m_blocks p @
                         [new_block (length (m_blocks p)) (unat (min (G * m_blockSize p) M))],
                       m_nextFree := Some (length (m_blocks p), 0)\<rparr>) \<and>
         free_path
           (m_blocks p @ [new_block (length (m_blocks p)) (unat (min (G * m_blockSize p) M))])
           (Some (length (m_blocks p), 0))
           (map (Pair (length (m_blocks p))) [0..<unat (min (G * m_blockSize p) M)]) \<and>
         fst (construct G M up (Some v) p) = Inr (length (m_blocks p), 0) \<and>
         map length (m_blocks (snd (construct G M up (Some v) p))) =
           map length (m_blocks p) @ [unat (min (G * m_blockSize p) M)] \<and>
         m_blockSize (snd (construct G M up (Some v) p)) = min (G * m_blockSize p) M"
    if "0 < G" "unat G * unat M < 2 ^ 64" "m_nextFree p = None" "0 < m_blockSize p"
      "m_blockSize p \<le> M" "up (min (G * m_blockSize p) M)"
    using growth_step[where up = up, OF that] by blast
  have b: "(\<forall>q \<in> set (trace G M p0 calls). 0 < m_blockSize q \<and> m_blockSize q \<le> M) \<and>
           sorted (unat S # new_sizes G M p0 calls) \<and>
           (\<forall>n \<in> set (unat S # new_sizes G M p0 calls). n \<le> unat M) \<and>
           sorted (map m_blockSize (trace G M p0 calls))"
    if "0 < G" "unat G * unat M < 2 ^ 64" "Pool M up0 S = Inr p0"
    using sizes_from_Pool(3,4)[OF that(3) that(1,2)] sizes_from_Pool(1)[OF that(3)]
      trace_in_range[OF that] by blast
  from a b 8 sizes_8_exhaust sizes_8_1024 show ?thesis by blast
qed

theorem growth_sizes_witness:
  "(0::size_t) < 2 \<and> unat (2::size_t) * unat (1024::size_t) < 2 ^ 64 \<and>
   m_nextFree pool1_full = None \<and> 0 < m_blockSize pool1_full \<and> m_blockSize pool1_full \<le> 1024 \<and>
   unlimited (min (2 * m_blockSize pool1_full) 1024) \<and>
   Pool 1024 unlimited 8 = Inr pool8 \<and>
   fst (construct 2 1024 unlimited (Some 1) pool1_full) = Inr (1, 0) \<and>
   map length (m_blocks (snd (construct 2 1024 unlimited (Some 1) pool1_full))) = [1, 2] \<and>
   m_blockSize (snd (construct 2 1024 unlimited (Some 1) pool1_full)) = 2 \<and>
   sorted (unat (8::size_t) #
     new_sizes 2 1024 pool8 [Release, Construct unlimited (Some 1), Destroy (Some (0, 0)), Release,
                             Construct exhausted (Some 2), Construct unlimited None])"
proof -
  have h: "(0::size_t) < 2" "unat (2::size_t) * unat (1024::size_t) < 2 ^ 64" by simp_all
  have p: "m_nextFree pool1_full = None" "m_blockSize pool1_full = 1" "map length (m_blocks pool1_full) = [1]"
    "length (m_blocks pool1_full) = 1"
    unfolding pool1_full_def by code_simp+
  have u: "unlimited (min (2 * m_blockSize pool1_full) 1024)" by (simp add: unlimited_def)
  have P: "Pool 1024 unlimited 8 = Inr pool8" unfolding pool8_def by code_simp
  from growth_sizes[of 2 1024 pool1_full unlimited 1 unlimited 8 pool8
      "[Release, Construct unlimited (Some 1), Destroy (Some (0, 0)), Release,
        Construct exhausted (Some 2), Construct unlimited None]"] h p u P
  show ?thesis by simp
qed

theorem growth_sizes_counterexample:
  "map length (m_blocks pool2) = [2] \<and>
   fst (construct_all 9223372036854775808 1024 unlimited [Some 0, Some 0, Some 0] pool2) =
     [Inr (0, 0), Inr (0, 1), Inl UndefinedBehaviour] \<and>
   map length (m_blocks (snd (construct_all 9223372036854775808 1024 unlimited
     [Some 0, Some 0, Some 0] pool2))) = [2, 0] \<and>
   m_blockSize (snd (construct_all 9223372036854775808 1024 unlimited
     [Some 0, Some 0, Some 0] pool2)) = 0 \<and>
   m_nextFree pool1_full = None \<and>
   map length (m_blocks pool1_full) = [1] \<and>
   map length (m_blocks (snd (construct 2 1024 exhausted (Some 0) pool1_full))) = [1]"
  unfolding pool2_def pool1_full_def by code_simp

text \<open>
  C5. On a pool whose free list is well formed (the counting loop returns \<open>k\<close>), let
  \<open>N\<close> calls of \<open>construct\<close> all return a handle, and let \<open>g\<close> be the number of slots
  of the blocks allocated on the way (the growth of the capacity). Then the free count
  after the \<open>N\<close> calls is \<open>k - N + g\<close>, and destroying the \<open>N\<close> handles, in any order
  \<open>ds\<close>, succeeds and leaves the free count \<open>k + g\<close>, that is the count after the
  constructs plus \<open>N\<close>: the round trip restores the free count up to the growth. In the
  scenario of a pool of initial size 8 with growth factor 2 and maximal block size 1024,
  twenty constructs leave blocks of sizes 8 and 16 and a free count of 4, and destroying
  the twenty objects in any order leaves a free count of 24.
\<close>

theorem round_trip:
  "(freeCount p = Some (Inr k) \<and>
    construct_all G M up ctors p = (map Inr hs, p1) \<and>
    mset ds = mset hs \<longrightarrow>
      length hs = length ctors \<and>
      capacity p \<le> capacity p1 \<and>
      length ctors \<le> k + (capacity p1 - capacity p) \<and>
      freeCount p1 = Some (Inr (k + (capacity p1 - capacity p) - length ctors)) \<and>
      fst (destroy_all p1 (map Some ds)) = Inr () \<and>
      freeCount (snd (destroy_all p1 (map Some ds))) = Some (Inr (k + (capacity p1 - capacity p))) \<and>
      capacity (snd (destroy_all p1 (map Some ds))) = capacity p1) \<and>
   (freeCount pool8 = Some (Inr 8) \<and>
    construct_all 2 1024 unlimited (replicate 20 (Some 0)) pool8 = (map Inr handles20, pool8_20) \<and>
    length handles20 = 20 \<and>
    map length (m_blocks pool8_20) = [8, 16] \<and>
    freeCount pool8_20 = Some (Inr 4) \<and>
    (\<forall>ds. mset ds = mset handles20 \<longrightarrow>
       freeCount (snd (destroy_all pool8_20 (map Some ds))) = Some (Inr 24)))"
proof -
  have general:
    "length hs = length ctors \<and>
     capacity p \<le> capacity p1 \<and>
     length ctors \<le> k + (capacity p1 - capacity p) \<and>
     freeCount p1 = Some (Inr (k + (capacity p1 - capacity p) - length ctors)) \<and>
     fst (destroy_all p1 (map Some ds)) = Inr () \<and>
     freeCount (snd (destroy_all p1 (map Some ds))) = Some (Inr (k + (capacity p1 - capacity p))) \<and>
     capacity (snd (destroy_all p1 (map Some ds))) = capacity p1"
    if fc: "freeCount p = Some (Inr k)"
      and run: "construct_all G M up ctors p = (map Inr hs, p1)"
      and perm: "mset ds = mset hs"
    for p p1 :: "'b pool" and k G M up ctors hs ds
  proof -
    from fc obtain xs where xs: "free_path (m_blocks p) (m_nextFree p) xs" "length xs = k"
      unfolding freeCount_iff_path by blast
    from construct_all_path[OF xs(1) run] obtain ys where
      ys: "length hs = length ctors" "capacity p \<le> capacity p1"
          "free_path (m_blocks p1) (m_nextFree p1) ys"
          "length ys + length hs = length xs + (capacity p1 - capacity p)"
      by blast
    from ys(4) have len: "length ys = k + (capacity p1 - capacity p) - length ctors"
      and le: "length ctors \<le> k + (capacity p1 - capacity p)"
      by (simp_all add: xs(2) ys(1)[symmetric])
    from ys(3) len have fc1: "freeCount p1 = Some (Inr (k + (capacity p1 - capacity p) - length ctors))"
      unfolding freeCount_iff_path by blast
    from construct_all_live[OF run]
    have "distinct hs" "\<forall>a \<in> set hs. live (m_blocks p1) a" by simp_all
    with perm have "distinct ds" "\<forall>a \<in> set ds. live (m_blocks p1) a"
      using mset_eq_imp_distinct_iff[OF perm] mset_eq_setD[OF perm] by auto
    from destroy_all_path[OF ys(3) this] obtain p2 where
      p2: "destroy_all p1 (map Some ds) = (Inr (), p2)"
          "free_path (m_blocks p2) (m_nextFree p2) (rev ds @ ys)" "capacity p2 = capacity p1"
      by blast
    have "length (rev ds @ ys) = k + (capacity p1 - capacity p)"
      using ys(4) mset_eq_length[OF perm] by (simp add: xs(2))
    with p2(2) have "freeCount p2 = Some (Inr (k + (capacity p1 - capacity p)))"
      unfolding freeCount_iff_path by blast
    with ys(1,2) le fc1 p2 show ?thesis by simp
  qed
  have fc8: "freeCount pool8 = Some (Inr 8)" unfolding pool8_def by code_simp
  have run: "construct_all 2 1024 unlimited (replicate 20 (Some 0)) pool8 = (map Inr handles20, pool8_20)"
    unfolding handles20_def pool8_20_def pool8_def by code_simp
  have len: "length handles20 = 20" unfolding handles20_def pool8_def by code_simp
  have bl: "map length (m_blocks pool8_20) = [8, 16]" unfolding pool8_20_def pool8_def by code_simp
  have fc20: "freeCount pool8_20 = Some (Inr 4)" unfolding pool8_20_def pool8_def by code_simp
  have cap: "capacity pool8 = 8" "capacity pool8_20 = 24"
    unfolding pool8_20_def pool8_def by code_simp+
  have any: "freeCount (snd (destroy_all pool8_20 (map Some ds))) = Some (Inr 24)"
    if "mset ds = mset handles20" for ds
    using general[OF fc8 run that] by (simp add: cap)
  from general fc8 run len bl fc20 any show ?thesis by blast
qed

theorem round_trip_witness:
  "freeCount pool8 = Some (Inr 8) \<and>
   construct_all 2 1024 unlimited [Some 10, Some 11, Some 12] pool8 =
     (map Inr [(0, 0), (0, 1), (0, 2)], pool8_3) \<and>
   mset [(0, 1), (0, 2), (0, 0)] = mset [(0, 0), (0, 1), (0::nat, 2::nat)] \<and>
   freeCount pool8_3 = Some (Inr 5) \<and>
   fst (destroy_all pool8_3 (map Some [(0, 1), (0, 2), (0, 0)])) = Inr () \<and>
   freeCount (snd (destroy_all pool8_3 (map Some [(0, 1), (0, 2), (0, 0)]))) = Some (Inr 8)"
proof -
  have 1: "freeCount pool8 = Some (Inr 8)" unfolding pool8_def by code_simp
  have 2: "construct_all 2 1024 unlimited [Some 10, Some 11, Some 12] pool8 =
             (map Inr [(0, 0), (0, 1), (0, 2)], pool8_3)"
    unfolding pool8_3_def pool8_def by code_simp
  have 3: "mset [(0, 1), (0, 2), (0, 0)] = mset [(0, 0), (0, 1), (0::nat, 2::nat)]"
    by (simp add: add.commute)
  have cap: "capacity pool8 = 8" "capacity pool8_3 = 8"
    unfolding pool8_3_def pool8_def by code_simp+
  from round_trip[of pool8 8 2 1024 unlimited "[Some 10, Some 11, Some 12]"
      "[(0, 0), (0, 1), (0, 2)]" pool8_3 "[(0, 1), (0, 2), (0, 0)]"] 1 2 3
  show ?thesis by (simp add: cap)
qed

text \<open>
  C6. Destroying a live handle \<open>X\<close> and then calling \<open>construct\<close> returns \<open>X\<close> again:
  \<open>destroy\<close> makes the slot of \<open>X\<close> the head of the free list, with the old head as its
  \<open>m_next\<close>, and \<open>construct\<close> on a pool whose free list is not empty returns the head of
  the list. This holds in every state of the pool and for all template arguments.
\<close>

theorem lifo_reuse:
  assumes "live (m_blocks (p :: 'a pool)) X"
  shows "destroy p (Some X) = (Inr (), deallocate p X) \<and>
         m_nextFree (deallocate p X) = Some X \<and>
         read_next (m_blocks (deallocate p X)) X = Some (m_nextFree p) \<and>
         fst (construct G M up (Some v) (deallocate p X)) = Inr X \<and>
         live (m_blocks (snd (construct G M up (Some v) (deallocate p X)))) X \<and>
         m_nextFree (snd (construct G M up (Some v) (deallocate p X))) = m_nextFree p \<and>
         (\<forall>(q :: 'a pool) a h ctor.
            m_nextFree q = Some a \<longrightarrow> fst (construct G M up ctor q) = Inr h \<longrightarrow> h = a)"
proof -
  let ?q = "deallocate p X"
  have h: "m_nextFree ?q = Some X" by (simp add: deallocate_def)
  have rd: "read_next (m_blocks ?q) X = Some (m_nextFree p)"
    using live_in_range[OF assms] by (simp add: deallocate_def read_next_write_next)
  have al: "allocate G M up ?q = (Inr X, ?q\<lparr>m_nextFree := m_nextFree p\<rparr>)"
    using h rd by (simp add: allocate_def take_head_def)
  have c: "construct G M up (Some v) ?q =
             (Inr X, ?q\<lparr>m_nextFree := m_nextFree p,
                         m_blocks := write_item (m_blocks ?q) X (M_storage v)\<rparr>)"
    using al by (simp add: construct_def)
  have "in_range (m_blocks ?q) X" using rd by (rule read_next_Some_in_range)
  then have lv: "live (write_item (m_blocks ?q) X (M_storage v)) X"
    by (simp add: live_write_storage)
  have hd: "\<forall>(q :: 'a pool) a h ctor. m_nextFree q = Some a \<longrightarrow>
                  fst (construct G M up ctor q) = Inr h \<longrightarrow> h = a"
    by (auto simp: construct_def allocate_def take_head_def split: option.splits)
  have "destroy p (Some X) = (Inr (), ?q) \<and> m_nextFree ?q = Some X \<and>
        read_next (m_blocks ?q) X = Some (m_nextFree p) \<and>
        fst (construct G M up (Some v) ?q) = Inr X \<and>
        live (m_blocks (snd (construct G M up (Some v) ?q))) X \<and>
        m_nextFree (snd (construct G M up (Some v) ?q)) = m_nextFree p"
    using destroy_live[OF assms] h rd c lv by simp
  with hd show ?thesis by blast
qed

theorem lifo_reuse_witness:
  "live (m_blocks pool8_3) (0, 1) \<and>
   destroy pool8_3 (Some (0, 1)) = (Inr (), deallocate pool8_3 (0, 1)) \<and>
   m_nextFree pool8_3 = Some (0, 3) \<and>
   fst (construct 2 1024 unlimited (Some 13) (deallocate pool8_3 (0, 1))) = Inr (0, 1) \<and>
   m_nextFree (snd (construct 2 1024 unlimited (Some 13) (deallocate pool8_3 (0, 1)))) = Some (0, 3)"
proof -
  have lv: "live (m_blocks pool8_3) (0, 1)"
    unfolding pool8_3_def pool8_def by code_simp
  have h: "m_nextFree pool8_3 = Some (0, 3)"
    unfolding pool8_3_def pool8_def by code_simp
  from lifo_reuse[OF lv, of 2 1024 unlimited 13] lv h show ?thesis by metis
qed




text \<open>
  C8, as amended. \<open>full()\<close> is true exactly when the free list is empty (the counting loop
  returns 0). A call of \<open>construct\<close> allocates a new block exactly when \<open>full()\<close> is true
  at the call and the upstream allocator grants the request: then \<open>m_blocks\<close> is the old
  list of blocks followed by one new block of the size the growth step has stored in
  \<open>m_blockSize\<close>. When \<open>full()\<close> is true and the allocator refuses, the call ends in
  \<open>bad_alloc\<close> with no block allocated. When \<open>full()\<close> is false the call asks the allocator
  for nothing and leaves the list of blocks (their number and sizes) and \<open>m_blockSize\<close> as
  they were.
\<close>

theorem full_iff_empty:
  "(full p \<longleftrightarrow> freeCount p = Some (Inr 0)) \<and>
   (length (m_blocks (snd (construct G M up ctor p))) = Suc (length (m_blocks p)) \<longleftrightarrow>
      full p \<and> up (min (G * m_blockSize p) M)) \<and>
   (full p \<and> up (min (G * m_blockSize p) M) \<longrightarrow>
      fst (construct G M up ctor p) \<noteq> Inl BadAlloc \<and>
      butlast (m_blocks (snd (construct G M up ctor p))) = m_blocks p \<and>
      length (last (m_blocks (snd (construct G M up ctor p)))) = unat (min (G * m_blockSize p) M) \<and>
      m_blockSize (snd (construct G M up ctor p)) = min (G * m_blockSize p) M) \<and>
   (full p \<and> \<not> up (min (G * m_blockSize p) M) \<longrightarrow>
      construct G M up ctor p = (Inl BadAlloc, p\<lparr>m_blockSize := min (G * m_blockSize p) M\<rparr>)) \<and>
   (\<not> full p \<longrightarrow>
      fst (construct G M up ctor p) \<noteq> Inl BadAlloc \<and>
      map length (m_blocks (snd (construct G M up ctor p))) = map length (m_blocks p) \<and>
      m_blockSize (snd (construct G M up ctor p)) = m_blockSize p)"
proof -
  obtain r p1 where c: "construct G M up ctor p = (r, p1)" by (cases "construct G M up ctor p")
  let ?n = "min (G * m_blockSize p) M"
  have 1: "full p \<longleftrightarrow> freeCount p = Some (Inr 0)"
    by (auto simp: full_def freeCount_iff_path)
  have 3: "r \<noteq> Inl BadAlloc \<and> butlast (m_blocks p1) = m_blocks p \<and>
           length (last (m_blocks p1)) = unat ?n \<and> m_blockSize p1 = ?n \<and>
           length (m_blocks p1) = Suc (length (m_blocks p))"
    if "full p" "up ?n"
    using construct_full_granted[OF _ that(2) c] that(1) by (simp add: full_def)
  have 4: "construct G M up ctor p = (Inl BadAlloc, p\<lparr>m_blockSize := ?n\<rparr>)"
    if "full p" "\<not> up ?n"
    using construct_full_refused[of p up G M ctor] that by (simp add: full_def)
  have 5: "r \<noteq> Inl BadAlloc \<and> map length (m_blocks p1) = map length (m_blocks p) \<and>
           m_blockSize p1 = m_blockSize p \<and> length (m_blocks p1) = length (m_blocks p)"
    if "\<not> full p"
  proof -
    from that have h: "m_nextFree p \<noteq> None" by (simp add: full_def)
    from construct_not_full[OF h c] map_eq_imp_length_eq[of length "m_blocks p1" length "m_blocks p"]
    show ?thesis by simp
  qed
  have 2: "length (m_blocks p1) = Suc (length (m_blocks p)) \<longleftrightarrow> full p \<and> up ?n"
  proof (cases "full p")
    case False
    with 5 show ?thesis by simp
  next
    case True
    show ?thesis
    proof (cases "up ?n")
      case True
      with 3 \<open>full p\<close> show ?thesis by simp
    next
      case False
      with 4[OF \<open>full p\<close>] c show ?thesis by auto
    qed
  qed
  from 1 2 3 4 5 c show ?thesis by simp
qed

theorem full_iff_empty_witness:
  "\<not> full pool8 \<and> freeCount pool8 = Some (Inr 8) \<and>
   map length (m_blocks (snd (construct 2 1024 unlimited (Some 1) pool8))) = [8] \<and>
   full pool1_full \<and> freeCount pool1_full = Some (Inr 0) \<and>
   unlimited (min (2 * m_blockSize pool1_full) 1024) \<and>
   length (m_blocks (snd (construct 2 1024 unlimited (Some 1) pool1_full))) = 2 \<and>
   length (last (m_blocks (snd (construct 2 1024 unlimited (Some 1) pool1_full)))) = 2 \<and>
   butlast (m_blocks (snd (construct 2 1024 unlimited (Some 1) pool1_full))) = m_blocks pool1_full"
proof -
  have 1: "\<not> full pool8" unfolding pool8_def by code_simp
  have 2: "freeCount pool8 = Some (Inr 8)" unfolding pool8_def by code_simp
  have 3: "map length (m_blocks pool8) = [8]" unfolding pool8_def by code_simp
  have 4: "full pool1_full" unfolding pool1_full_def by code_simp
  have 5: "m_blockSize pool1_full = 1" "length (m_blocks pool1_full) = 1"
    unfolding pool1_full_def by code_simp+
  have u: "unlimited (min (2 * m_blockSize pool1_full) 1024)" by (simp add: unlimited_def)
  from full_iff_empty[of pool8 2 1024 unlimited "Some 1"]
    full_iff_empty[of pool1_full 2 1024 unlimited "Some 1"] 1 2 3 4 5 u
  show ?thesis by simp
qed

theorem full_counterexample:
  "full pool1_full \<and>
   length (m_blocks pool1_full) = 1 \<and>
   fst (construct 2 1024 exhausted (Some 1) pool1_full) = Inl BadAlloc \<and>
   m_blocks (snd (construct 2 1024 exhausted (Some 1) pool1_full)) = m_blocks pool1_full"
  unfolding pool1_full_def by code_simp

text \<open>
  C9, as amended. \<open>Pool(size)\<close> stops at an assertion exactly when \<open>size == 0\<close> or
  \<open>size > MaxBlockSize\<close>. For \<open>1 \<le> size \<le> MaxBlockSize\<close> no assertion fires; the
  constructor then succeeds exactly when the upstream allocator grants the first block, and
  returns a pool with one block of \<open>size\<close> slots, all of them on the free list (in the
  order of their indices) and none holding an object. When the allocator refuses the block
  the constructor ends in \<open>bad_alloc\<close>.
\<close>

theorem Pool_contract:
  "(Pool M up sz = (Inl AssertionFailed :: error + 'a pool) \<longleftrightarrow> sz = 0 \<or> M < sz) \<and>
   (1 \<le> sz \<and> sz \<le> M \<and> up sz \<longrightarrow>
      (\<exists>p :: 'a pool. Pool M up sz = Inr p \<and>
           map length (m_blocks p) = [unat sz] \<and>
           m_blockSize p = sz \<and>
           freeCount p = Some (Inr (unat sz)) \<and>
           free_path (m_blocks p) (m_nextFree p) (map (Pair 0) [0..<unat sz]) \<and>
           (\<forall>a. \<not> live (m_blocks p) a))) \<and>
   (1 \<le> sz \<and> sz \<le> M \<and> \<not> up sz \<longrightarrow> Pool M up sz = (Inl BadAlloc :: error + 'a pool))"
proof (intro conjI impI)
  show "Pool M up sz = (Inl AssertionFailed :: error + 'a pool) \<longleftrightarrow> sz = 0 \<or> M < sz"
    by (auto simp: Pool_def make_unique_def word_gt_0 not_le)
next
  assume a: "1 \<le> sz \<and> sz \<le> M \<and> up sz"
  let ?p = "\<lparr>m_blocks = [new_block 0 (unat sz)], m_blockSize = sz, m_nextFree = Some (0, 0)\<rparr> :: 'a pool"
  from a have pos: "0 < sz" by (auto simp: word_gt_0)
  then have upos: "0 < unat sz" by (simp add: unat_gt_0 word_gt_0)
  from a pos have P: "Pool M up sz = Inr ?p" by (simp add: Pool_granted)
  have path: "free_path (m_blocks ?p) (m_nextFree ?p) (map (Pair 0) [0..<unat sz])"
    using free_path_new_block[of 0 "unat sz" "[]"] upos by simp
  then have "freeCount ?p = Some (Inr (unat sz))"
    using freeCount_iff_path[of ?p "unat sz"] by auto
  moreover have "\<forall>a. \<not> live (m_blocks ?p) a"
    by (simp add: new_block_not_live)
  ultimately have "Pool M up sz = Inr ?p \<and>
           map length (m_blocks ?p) = [unat sz] \<and>
           m_blockSize ?p = sz \<and>
           freeCount ?p = Some (Inr (unat sz)) \<and>
           free_path (m_blocks ?p) (m_nextFree ?p) (map (Pair 0) [0..<unat sz]) \<and>
           (\<forall>a. \<not> live (m_blocks ?p) a)"
    using P path by simp
  then show "\<exists>p :: 'a pool. Pool M up sz = Inr p \<and>
           map length (m_blocks p) = [unat sz] \<and>
           m_blockSize p = sz \<and>
           freeCount p = Some (Inr (unat sz)) \<and>
           free_path (m_blocks p) (m_nextFree p) (map (Pair 0) [0..<unat sz]) \<and>
           (\<forall>a. \<not> live (m_blocks p) a)"
    by (rule exI[of _ ?p])
next
  assume "1 \<le> sz \<and> sz \<le> M \<and> \<not> up sz"
  then show "Pool M up sz = (Inl BadAlloc :: error + 'a pool)"
    by (auto simp: Pool_def make_unique_def word_gt_0)
qed

theorem Pool_contract_witness:
  "(1::size_t) \<le> 8 \<and> (8::size_t) \<le> 1024 \<and> unlimited 8 \<and>
   Pool 1024 unlimited 8 = Inr pool8 \<and> map length (m_blocks pool8) = [8] \<and>
   freeCount pool8 = Some (Inr 8) \<and>
   (Pool 1024 unlimited 0 :: error + nat pool) = Inl AssertionFailed \<and>
   (Pool 1024 unlimited 1025 :: error + nat pool) = Inl AssertionFailed"
proof -
  have h: "(1::size_t) \<le> 8 \<and> (8::size_t) \<le> 1024 \<and> unlimited 8" by (simp add: unlimited_def)
  from Pool_contract[of 1024 unlimited 8, where 'a = nat] h
  obtain p :: "nat pool" where p: "Pool 1024 unlimited 8 = Inr p" "map length (m_blocks p) = [unat (8::size_t)]"
    "freeCount p = Some (Inr (unat (8::size_t)))" by auto
  from p(1) have "pool8 = p" by (simp add: pool8_def)
  with p h Pool_contract[of 1024 unlimited 0, where 'a = nat]
    Pool_contract[of 1024 unlimited 1025, where 'a = nat]
  show ?thesis by simp
qed

theorem Pool_contract_counterexample:
  "(1::size_t) \<le> 8 \<and> (8::size_t) \<le> 1024 \<and>
   (Pool 1024 exhausted 8 :: error + nat pool) = Inl BadAlloc"
  by (simp add: Pool_def make_unique_def exhausted_def)

text \<open>
  C10. In a multipool, \<open>release<T>()\<close> replaces the pool of \<open>T\<close> by its released state and
  leaves the pool of every other type \<open>U\<close> as it is: the same blocks, the same free list, the
  same live objects, the same block size. A later \<open>construct<U>\<close> gives the result, and the
  pool of \<open>U\<close>, that it would have given without the release.
\<close>

theorem mp_release_frame:
  "T \<noteq> U \<Longrightarrow>
   mp_release T pools T = release (pools T) \<and>
   mp_release T pools U = pools U \<and>
   fst (mp_construct up U ctor (mp_release T pools)) = fst (construct 2 1024 up ctor (pools U)) \<and>
   snd (mp_construct up U ctor (mp_release T pools)) U = snd (construct 2 1024 up ctor (pools U)) \<and>
   snd (mp_construct up U ctor (mp_release T pools)) T = release (pools T)"
  by (simp add: mp_release_def mp_construct_def split: prod.splits)

theorem mp_release_frame_witness:
  "False \<noteq> True \<and>
   mp_release False mp_example True = mp_example True \<and>
   live (m_blocks (mp_release False mp_example True)) (0, 0) \<and>
   m_blocks (mp_release False mp_example False) = [] \<and>
   fst (mp_construct unlimited True (Some 9) (mp_release False mp_example)) = Inr (0, 1)"
proof -
  have ne: "False \<noteq> True" by simp
  have 1: "fst (construct 2 1024 unlimited (Some 9) (mp_example True)) = Inr (0, 1)"
    unfolding mp_example_def by code_simp
  have 2: "live (m_blocks (mp_example True)) (0, 0)"
    unfolding mp_example_def by code_simp
  have 3: "m_blocks (release (mp_example False)) = []" by (simp add: release_def)
  from mp_release_frame[OF ne, of mp_example unlimited "Some 9"] 1 2 3 ne show ?thesis
    by simp
qed

end
